theory Spec2Isabelle
  imports Main "HOL-Library.Word"
begin

section \<open>Machine integers\<close>

text \<open>
  The source is C on an LP64 platform: \<open>size_t\<close> and \<open>ssize_t\<close> are 64 bits wide,
  \<open>int\<close> is 32 bits wide.  Unsigned arithmetic wraps around, which is what the word
  type does; a signed reading is written \<open>sint\<close>, a signed comparison \<open><s\<close>.
\<close>

type_synonym size_t = "64 word"
type_synonym ssize_t = "64 word"
type_synonym cint = "32 word"
type_synonym byte = "8 word"

text \<open>\<open>INT_MAX\<close>, at whichever integer type the comparison of the source converts it to.\<close>

definition INT_MAX :: "'a::len word" where
  "INT_MAX = 2147483647"

section \<open>The transport session\<close>

text \<open>
  The transport (\<open>tor_tls_t\<close>, \<open>tortls.c\<close>) is an external collaborator of this file.
  Its error codes are exactly the negative values of an \<open>int\<close>.
\<close>

typedef tls_error = "{c :: cint. c <s 0}"
  by (rule exI [of _ "- 1"]) simp

datatype rd_outcome = RdError tls_error | RdBytes "byte list"

datatype wr_outcome = WrError tls_error | WrAccepted nat

text \<open>A record sent to the notice log by line 127: address, port, time stamp, byte count.\<close>

datatype notice = Logging_IP string nat nat size_t

text \<open>
  One call of the transport, as the caller sees it: the length asked for, the bytes
  handed over (for a write) and the outcome.
\<close>

datatype io_event = IoRead size_t rd_outcome | IoWrite size_t "byte list" wr_outcome

text \<open>
  Everything outside the buffer that a call can touch: the session's state, the calls
  issued to it so far, the notice log and the clock.
\<close>

record 't world =
  tls :: 't
  io :: "io_event list"
  notices :: "notice list"
  clock :: nat

text \<open>
  What the file is compiled and run against.  The session's three operations and the
  peer address of its socket; the two constants of \<open>buffers.h\<close> and \<open>buffers.c\<close> that the
  source uses but does not define (\<open>MIN_READ_LEN\<close> and the capacity that
  \<open>buf_add_chunk_with_capacity\<close> gives a new chunk for a requested size); and the option
  \<open>NodeType\<close> of \<open>get_options()\<close>.
\<close>

record 't env =
  tls_read :: "'t \<Rightarrow> size_t \<Rightarrow> rd_outcome \<times> 't"
  tls_write :: "'t \<Rightarrow> byte list \<Rightarrow> wr_outcome \<times> 't"
  tls_get_forced_write_size :: "'t \<Rightarrow> size_t"
  getpeername :: "'t \<Rightarrow> string \<times> nat"
  MIN_READ_LEN :: size_t
  chunk_memlen :: "size_t \<Rightarrow> size_t"
  NodeType :: cint

text \<open>
  Modelled from the spec: \<open>tor_tls_read\<close> is missing from the sources.  The interface is
  \<open>read(buf, max_len) -> isize_with_error\<close>: the session stores at most \<open>len\<close> bytes at the
  write pointer and returns their number (an \<open>int\<close>, so at most \<open>INT_MAX\<close>), or a negative
  error code.
\<close>

definition tor_tls_read :: "'t env \<Rightarrow> 't world \<Rightarrow> size_t \<Rightarrow> cint \<times> byte list \<times> 't world" where
  "tor_tls_read E w len =
     (case tls_read E (tls w) len of
        (RdError e, t) \<Rightarrow>
          (Rep_tls_error e, [], w\<lparr>tls := t, io := io w @ [IoRead len (RdError e)]\<rparr>)
      | (RdBytes bs, t) \<Rightarrow>
          (let d = take (min (unat len) (unat (INT_MAX :: size_t))) bs
           in (of_nat (length d), d, w\<lparr>tls := t, io := io w @ [IoRead len (RdBytes d)]\<rparr>)))"

text \<open>
  Modelled from the spec: \<open>tor_tls_write\<close> is missing from the sources.  The interface is
  \<open>write(buf, len) -> isize_with_error\<close>: the session accepts at most \<open>len\<close> bytes of those
  handed to it and returns their number, or a negative error code.
\<close>

definition tor_tls_write :: "'t env \<Rightarrow> 't world \<Rightarrow> byte list \<Rightarrow> size_t \<Rightarrow> cint \<times> 't world" where
  "tor_tls_write E w data n =
     (case tls_write E (tls w) data of
        (WrError e, t) \<Rightarrow>
          (Rep_tls_error e, w\<lparr>tls := t, io := io w @ [IoWrite n data (WrError e)]\<rparr>)
      | (WrAccepted k, t) \<Rightarrow>
          (let k' = min k (min (unat n) (unat (INT_MAX :: size_t)))
           in (of_nat k', w\<lparr>tls := t, io := io w @ [IoWrite n data (WrAccepted k')]\<rparr>)))"

definition tor_tls_get_forced_write_size :: "'t env \<Rightarrow> 't world \<Rightarrow> size_t" where
  "tor_tls_get_forced_write_size E w = tls_get_forced_write_size E (tls w)"

section \<open>Chunks and buffers\<close>

text \<open>
  Modelled from the spec: \<open>chunk_t\<close> and \<open>buf_t\<close> are declared in \<open>buffers.h\<close>, which is
  missing from the sources.  A chunk owns a block of fixed capacity \<open>memlen\<close>, holds
  \<open>datalen\<close> valid bytes and is written at offset \<open>datalen\<close>; drained bytes are removed.
  A buffer is the sequence of its chunks, head first and tail last, with the cached
  total \<open>datalen\<close>.
\<close>

record chunk_t =
  memlen :: size_t
  chunk_datalen :: size_t
  chunk_data :: "byte list"

record buf_t =
  datalen :: size_t
  chunks :: "chunk_t list"

definition CHUNK_REMAINING_CAPACITY :: "chunk_t \<Rightarrow> size_t" where
  "CHUNK_REMAINING_CAPACITY chunk = memlen chunk - chunk_datalen chunk"

text \<open>The logical byte stream of a buffer.\<close>

definition buf_bytes :: "buf_t \<Rightarrow> byte list" where
  "buf_bytes buf = concat (map chunk_data (chunks buf))"

text \<open>
  Modelled from the spec: \<open>buf_add_chunk_with_capacity\<close> is missing from the sources.
  It allocates a new chunk sized for the request and appends it as the new tail; the
  capacity it chooses is \<open>chunk_memlen\<close> of the environment.
\<close>

definition buf_add_chunk_with_capacity :: "'t env \<Rightarrow> buf_t \<Rightarrow> size_t \<Rightarrow> buf_t" where
  "buf_add_chunk_with_capacity E buf capacity =
     buf\<lparr>chunks := chunks buf @
       [\<lparr>memlen = chunk_memlen E capacity, chunk_datalen = 0, chunk_data = []\<rparr>]\<rparr>"

text \<open>
  Modelled from the spec: \<open>buf_drain\<close> is missing from the sources.  It removes the first
  \<open>n\<close> bytes from the logical stream, frees any chunk fully consumed and decrements the
  total by \<open>n\<close>; it fails, as a programmer error, if \<open>n\<close> exceeds the total.
\<close>

fun drain_chunks :: "chunk_t list \<Rightarrow> size_t \<Rightarrow> chunk_t list" where
  "drain_chunks [] n = []"
| "drain_chunks (c # cs) n =
     (if n = 0 then c # cs
      else if chunk_datalen c \<le> n then drain_chunks cs (n - chunk_datalen c)
      else c\<lparr>chunk_datalen := chunk_datalen c - n,
              chunk_data := drop (unat n) (chunk_data c)\<rparr> # cs)"

definition buf_drain :: "buf_t \<Rightarrow> size_t \<Rightarrow> buf_t option" where
  "buf_drain buf n =
     (if n > datalen buf then None
      else Some (buf\<lparr>datalen := datalen buf - n, chunks := drain_chunks (chunks buf) n\<rparr>))"

section \<open>Outcomes of a call\<close>

text \<open>
  \<open>tor_assert\<close> aborts the process when its condition is false.  Each assertion of the
  file has a name; \<open>Null_chunk\<close> stands for following a null chunk pointer.
\<close>

datatype assertion =
  Assert_remaining_capacity
| Assert_total_read
| Assert_sz_le_datalen
| Assert_sz_zero
| Assert_flushed
| Assert_drain
| Null_chunk

datatype ('t, 'a) run = Aborted assertion "'t world" | Returned 'a

section \<open>Reading from the transport\<close>

text \<open>
  \<open>read_to_chunk_tls\<close>, lines 30 to 43.  Its chunk argument is the tail of the buffer at
  its only call site.
\<close>

definition read_to_chunk_tls ::
  "'t env \<Rightarrow> buf_t \<Rightarrow> 't world \<Rightarrow> size_t \<Rightarrow> ('t, cint \<times> buf_t \<times> 't world) run" where
  "read_to_chunk_tls E buf w at_most =
     (if chunks buf = [] then Aborted Null_chunk w
      else
        let chunk = last (chunks buf) in
        if \<not> (CHUNK_REMAINING_CAPACITY chunk \<ge> at_most) then Aborted Assert_remaining_capacity w
        else
          (case tor_tls_read E w at_most of
             (read_result, d, w') \<Rightarrow>
               if read_result <s 0 then Returned (read_result, buf, w')
               else Returned (read_result,
                 buf\<lparr>datalen := datalen buf + scast read_result,
                     chunks := butlast (chunks buf) @
                       [chunk\<lparr>chunk_datalen := chunk_datalen chunk + scast read_result,
                              chunk_data := chunk_data chunk @ d\<rparr>]\<rparr>,
                 w')))"

text \<open>
  Lines 89 to 100: the chunk to read into and the length to ask for in this iteration.
\<close>

definition choose_chunk :: "'t env \<Rightarrow> buf_t \<Rightarrow> size_t \<Rightarrow> size_t \<Rightarrow> buf_t \<times> size_t" where
  "choose_chunk E buf at_most total_read =
     (let readlen = at_most - total_read in
      if chunks buf = [] \<or> CHUNK_REMAINING_CAPACITY (last (chunks buf)) < MIN_READ_LEN E then
        (let buf' = buf_add_chunk_with_capacity E buf at_most;
             chunk = last (chunks buf')
         in (buf', if readlen > memlen chunk then memlen chunk else readlen))
      else
        (let cap = CHUNK_REMAINING_CAPACITY (last (chunks buf))
         in (buf, if cap < readlen then cap else readlen)))"

text \<open>
  The loop of lines 88 to 109.  It leaves with \<open>Inl r\<close> where the source returns the
  error \<open>r\<close> at once, and with \<open>Inr total_read\<close> where the source goes on to line 110.
  Nothing bounds the number of iterations when chunks of capacity zero are handed out,
  so not returning is the value \<open>None\<close>.
\<close>

partial_function (option) read_loop ::
  "'t env \<Rightarrow> buf_t \<Rightarrow> 't world \<Rightarrow> size_t \<Rightarrow> size_t \<Rightarrow>
     ('t, (cint + size_t) \<times> buf_t \<times> 't world) run option" where
  "read_loop E buf w at_most total_read =
     (if at_most > total_read then
        (case choose_chunk E buf at_most total_read of
           (buf1, readlen) \<Rightarrow>
             (case read_to_chunk_tls E buf1 w readlen of
                Aborted a w' \<Rightarrow> Some (Aborted a w')
              | Returned (r, buf2, w2) \<Rightarrow>
                  if r <s 0 then Some (Returned (Inl r, buf2, w2))
                  else if \<not> (total_read + scast r < INT_MAX) then
                    Some (Aborted Assert_total_read w2)
                  else if scast r < readlen then
                    Some (Returned (Inr (total_read + scast r), buf2, w2))
                  else read_loop E buf2 w2 at_most (total_read + scast r)))
      else Some (Returned (Inr total_read, buf, w)))"

text \<open>Lines 110 to 128: the peer's address, port and the time go to the notice log.\<close>

definition log_peer :: "'t env \<Rightarrow> size_t \<Rightarrow> 't world \<Rightarrow> 't world" where
  "log_peer E total_read w =
     (if NodeType E \<noteq> 0 then
        (case getpeername E (tls w) of
           (ipstr, port) \<Rightarrow>
             w\<lparr>notices := notices w @ [Logging_IP ipstr port (clock w) total_read]\<rparr>)
      else w)"

text \<open>\<open>buf_read_from_tls\<close>, lines 75 to 130.\<close>

definition buf_read_from_tls ::
  "'t env \<Rightarrow> buf_t \<Rightarrow> 't world \<Rightarrow> size_t \<Rightarrow> ('t, cint \<times> buf_t \<times> 't world) run option" where
  "buf_read_from_tls E buf w at_most =
     (if datalen buf \<ge> INT_MAX then Some (Returned (- 1, buf, w))
      else if datalen buf \<ge> INT_MAX - at_most then Some (Returned (- 1, buf, w))
      else
        (case read_loop E buf w at_most 0 of
           None \<Rightarrow> None
         | Some (Aborted a w') \<Rightarrow> Some (Aborted a w')
         | Some (Returned (Inl r, buf', w')) \<Rightarrow> Some (Returned (r, buf', w'))
         | Some (Returned (Inr total_read, buf', w')) \<Rightarrow>
             Some (Returned (ucast total_read, buf', log_peer E total_read w'))))"

section \<open>Writing to the transport\<close>

text \<open>
  \<open>flush_chunk_tls\<close>, lines 138 to 167.  Its chunk argument is the head of the buffer at
  its only call site (null when the buffer has no chunk).
\<close>

definition flush_chunk_tls ::
  "'t env \<Rightarrow> buf_t \<Rightarrow> 't world \<Rightarrow> size_t \<Rightarrow> size_t \<Rightarrow>
     ('t, cint \<times> buf_t \<times> size_t \<times> 't world) run" where
  "flush_chunk_tls E buf w sz0 buf_flushlen =
     (let forced = tor_tls_get_forced_write_size E w;
          sz = (if forced > sz0 then forced else sz0)
      in
        if (case chunks buf of chunk # _ \<Rightarrow> \<not> sz \<le> chunk_datalen chunk | [] \<Rightarrow> False)
        then Aborted Assert_sz_le_datalen w
        else if (case chunks buf of chunk # _ \<Rightarrow> False | [] \<Rightarrow> sz \<noteq> 0)
        then Aborted Assert_sz_zero w
        else
          (case tor_tls_write E w
                  (case chunks buf of chunk # _ \<Rightarrow> take (unat sz) (chunk_data chunk) | [] \<Rightarrow> [])
                  sz of
             (r, w') \<Rightarrow>
               if r <s 0 then Returned (r, buf, buf_flushlen, w')
               else
                 (let buf_flushlen' =
                        (if buf_flushlen > scast r then buf_flushlen - scast r else 0)
                  in case buf_drain buf (scast r) of
                       None \<Rightarrow> Aborted Assert_drain w'
                     | Some buf' \<Rightarrow> Returned (r, buf', buf_flushlen', w'))))"

text \<open>Lines 193 to 201: the length to ask \<open>flush_chunk_tls\<close> for in this iteration.\<close>

definition flushlen0 :: "buf_t \<Rightarrow> ssize_t \<Rightarrow> size_t" where
  "flushlen0 buf sz =
     (case chunks buf of
        head # _ \<Rightarrow> if sz \<le>s chunk_datalen head then sz else chunk_datalen head
      | [] \<Rightarrow> 0)"

text \<open>
  The loop of lines 192 to 210, entered at its body.  It leaves with \<open>Inl r\<close> where the
  source returns the error \<open>r\<close> at once, and with \<open>Inr flushed\<close> where the source goes on
  to line 211.
\<close>

function flush_loop ::
  "'t env \<Rightarrow> buf_t \<Rightarrow> 't world \<Rightarrow> ssize_t \<Rightarrow> size_t \<Rightarrow> size_t \<Rightarrow>
     ('t, (cint + size_t) \<times> buf_t \<times> size_t \<times> 't world) run" where
  "flush_loop E buf w sz buf_flushlen flushed =
     (case flush_chunk_tls E buf w (flushlen0 buf sz) buf_flushlen of
        Aborted a w' \<Rightarrow> Aborted a w'
      | Returned (r, buf', buf_flushlen', w') \<Rightarrow>
          if r <s 0 then Returned (Inl r, buf', buf_flushlen', w')
          else if r = 0 then Returned (Inr (flushed + scast r), buf', buf_flushlen', w')
          else if 0 <s sz - scast r then
            flush_loop E buf' w' (sz - scast r) buf_flushlen' (flushed + scast r)
          else Returned (Inr (flushed + scast r), buf', buf_flushlen', w'))"
  by pat_completeness auto

text \<open>
  An iteration that goes round again has written \<open>r > 0\<close> bytes and leaves \<open>sz - r > 0\<close>:
  from the second iteration on \<open>sz\<close> is positive and strictly decreasing.
\<close>

termination flush_loop
  apply (relation "measure (\<lambda>(E, buf, w, sz, bfl, flushed).
                     if 0 <s sz then nat (sint sz) else 2 ^ 63)")
   apply simp
  subgoal premises prems for E buf w sz buf_flushlen flushed x2 r
  proof -
    have r0: "sint r \<noteq> 0"
      using prems(6) by (metis signed_0 signed_word_eqI)
    have r: "0 < sint r"
      using prems(5) r0 by (simp add: word_sless_alt)
    have rl: "sint r < 2 ^ 31"
      using sint_lt [of r] by simp
    have cast: "sint (scast r :: 64 word) = sint r"
      by (rule sint_up_scast) (simp add: is_up)
    have pos: "0 < sint (sz - scast r)"
      using prems(7) by (simp add: word_sless_alt)
    have up: "sint (sz - scast r) < 2 ^ 63"
      using sint_lt [of "sz - scast r"] by simp
    show ?thesis
    proof (cases "0 <s sz")
      case True
      then have s: "0 < sint sz"
        by (simp add: word_sless_alt)
      have sl: "sint sz < 2 ^ 63"
        using sint_lt [of sz] by simp
      have "sint (sz - scast r) = signed_take_bit 63 (sint sz - sint r)"
        by (simp add: sint_word_ariths cast)
      also have "\<dots> = sint sz - sint r"
        using r s rl sl by (intro signed_take_bit_int_eq_self) auto
      finally show ?thesis
        using r pos True prems(7) by simp
    next
      case False
      have "nat (sint (sz - scast r)) < 2 ^ 63"
        using up by (simp add: nat_less_iff)
      then show ?thesis
        using False prems(7) by simp
    qed
  qed
  done

declare flush_loop.simps [simp del]

text \<open>\<open>buf_flush_to_tls\<close>, lines 172 to 213.\<close>

definition buf_flush_to_tls ::
  "'t env \<Rightarrow> buf_t \<Rightarrow> 't world \<Rightarrow> size_t \<Rightarrow> size_t \<Rightarrow>
     ('t, cint \<times> buf_t \<times> size_t \<times> 't world) run" where
  "buf_flush_to_tls E buf w flushlen buf_flushlen =
     (let buf_flushlen1 = (if buf_flushlen > datalen buf then datalen buf else buf_flushlen);
          flushlen1 = (if flushlen > buf_flushlen1 then buf_flushlen1 else flushlen);
          sz = flushlen1
      in case flush_loop E buf w sz buf_flushlen1 0 of
           Aborted a w' \<Rightarrow> Aborted a w'
         | Returned (Inl r, buf', buf_flushlen', w') \<Rightarrow> Returned (r, buf', buf_flushlen', w')
         | Returned (Inr flushed, buf', buf_flushlen', w') \<Rightarrow>
             if \<not> (flushed < INT_MAX) then Aborted Assert_flushed w'
             else Returned (ucast flushed, buf', buf_flushlen', w'))"

section \<open>Observing a call\<close>

text \<open>The world a call leaves behind, whether it returns or aborts.\<close>

definition rd_world :: "('t, 'a \<times> buf_t \<times> 't world) run \<Rightarrow> 't world" where
  "rd_world res = (case res of Aborted a w \<Rightarrow> w | Returned (x, buf, w) \<Rightarrow> w)"

definition fl_world :: "('t, 'a \<times> buf_t \<times> size_t \<times> 't world) run \<Rightarrow> 't world" where
  "fl_world res = (case res of Aborted a w \<Rightarrow> w | Returned (x, buf, n, w) \<Rightarrow> w)"

text \<open>The transport calls issued between two worlds.\<close>

definition new_io :: "'t world \<Rightarrow> 't world \<Rightarrow> io_event list" where
  "new_io w w' = drop (length (io w)) (io w')"

text \<open>The bytes a read stored, and the bytes a write got accepted.\<close>

fun rd_bytes :: "io_event \<Rightarrow> byte list" where
  "rd_bytes (IoRead n (RdBytes d)) = d"
| "rd_bytes _ = []"

fun wr_bytes :: "io_event \<Rightarrow> byte list" where
  "wr_bytes (IoWrite n data (WrAccepted k)) = take k data"
| "wr_bytes _ = []"

definition delivered :: "io_event list \<Rightarrow> byte list" where
  "delivered evs = concat (map rd_bytes evs)"

definition accepted :: "io_event list \<Rightarrow> byte list" where
  "accepted evs = concat (map wr_bytes evs)"

fun is_read :: "io_event \<Rightarrow> bool" where
  "is_read (IoRead n out) = True"
| "is_read _ = False"

fun is_write :: "io_event \<Rightarrow> bool" where
  "is_write (IoWrite n data out) = True"
| "is_write _ = False"

text \<open>A read that returned as many bytes as it was asked for.\<close>

fun full_read :: "io_event \<Rightarrow> bool" where
  "full_read (IoRead n (RdBytes d)) = (length d = unat n)"
| "full_read _ = False"

text \<open>A read that returned fewer bytes than it was asked for.\<close>

fun short_read :: "io_event \<Rightarrow> bool" where
  "short_read (IoRead n (RdBytes d)) = (length d < unat n)"
| "short_read _ = False"

text \<open>A write that got at least one byte accepted.\<close>

fun progress_write :: "io_event \<Rightarrow> bool" where
  "progress_write (IoWrite n data (WrAccepted k)) = (0 < k)"
| "progress_write _ = False"

text \<open>A call of the transport that returned an error code.\<close>

fun io_error :: "io_event \<Rightarrow> tls_error option" where
  "io_error (IoRead n (RdError e)) = Some e"
| "io_error (IoWrite n data (WrError e)) = Some e"
| "io_error _ = None"

text \<open>
  Lines 146 to 148: the size of the write after raising it to the forced write size, and
  the bytes at the data pointer then handed to the transport.
\<close>

definition write_len :: "'t env \<Rightarrow> 't world \<Rightarrow> size_t \<Rightarrow> size_t" where
  "write_len E w sz0 = max sz0 (tor_tls_get_forced_write_size E w)"

definition write_data :: "buf_t \<Rightarrow> size_t \<Rightarrow> byte list" where
  "write_data buf sz =
     (case chunks buf of chunk # _ \<Rightarrow> take (unat sz) (chunk_data chunk) | [] \<Rightarrow> [])"

text \<open>The number of bytes a write reported as written, and the sum over a trace.\<close>

fun wr_count :: "io_event \<Rightarrow> nat" where
  "wr_count (IoWrite n data (WrAccepted k)) = k"
| "wr_count _ = 0"

definition flushed_count :: "io_event list \<Rightarrow> nat" where
  "flushed_count evs = sum_list (map wr_count evs)"

section \<open>The data model's invariant\<close>

text \<open>
  Every chunk counts its own bytes and the buffer's total counts all of them.
\<close>

definition chunk_inv :: "chunk_t \<Rightarrow> bool" where
  "chunk_inv c \<longleftrightarrow> unat (chunk_datalen c) = length (chunk_data c)"

definition buf_inv :: "buf_t \<Rightarrow> bool" where
  "buf_inv buf \<longleftrightarrow>
     list_all chunk_inv (chunks buf) \<and> unat (datalen buf) = length (buf_bytes buf)"

text \<open>The length of the head chunk, 0 when there is none.\<close>

definition head_datalen :: "buf_t \<Rightarrow> size_t" where
  "head_datalen buf = (case chunks buf of head # _ \<Rightarrow> chunk_datalen head | [] \<Rightarrow> 0)"

section \<open>Transport mocks\<close>

text \<open>
  A scripted session: successive reads yield what \<open>yields\<close> lists (nothing once it is
  used up), successive writes get what \<open>accepts\<close> lists, and a partial record of
  \<open>forced_write_size\<close> bytes is pending throughout.
\<close>

record mock =
  yields :: "rd_outcome list"
  accepts :: "wr_outcome list"
  forced_write_size :: size_t
  peer :: "string \<times> nat"

definition mock_read :: "mock \<Rightarrow> size_t \<Rightarrow> rd_outcome \<times> mock" where
  "mock_read t len =
     (case yields t of [] \<Rightarrow> (RdBytes [], t) | y # ys \<Rightarrow> (y, t\<lparr>yields := ys\<rparr>))"

definition mock_write :: "mock \<Rightarrow> byte list \<Rightarrow> wr_outcome \<times> mock" where
  "mock_write t data =
     (case accepts t of [] \<Rightarrow> (WrAccepted 0, t) | a # as \<Rightarrow> (a, t\<lparr>accepts := as\<rparr>))"

definition mock_env :: "size_t \<Rightarrow> (size_t \<Rightarrow> size_t) \<Rightarrow> cint \<Rightarrow> mock env" where
  "mock_env mrl cap nt =
     \<lparr>tls_read = mock_read, tls_write = mock_write,
      tls_get_forced_write_size = forced_write_size, getpeername = peer,
      MIN_READ_LEN = mrl, chunk_memlen = cap, NodeType = nt\<rparr>"





definition empty_buf :: buf_t where
  "empty_buf = \<lparr>datalen = 0, chunks = []\<rparr>"

definition fresh_world :: "'t \<Rightarrow> 't world" where
  "fresh_world t = \<lparr>tls = t, io = [], notices = [], clock = 1000\<rparr>"



text \<open>A session with nothing to read, accepting nothing, with no partial record pending.\<close>

definition quiet :: mock where
  "quiet = \<lparr>yields = [], accepts = [], forced_write_size = 0, peer = (''192.0.2.7'', 443)\<rparr>"

text \<open>The session of the spec's scenario: it yields five bytes, then none.\<close>

definition five_then_none :: mock where
  "five_then_none = quiet\<lparr>yields := [RdBytes [1, 2, 3, 4, 5], RdBytes []]\<rparr>"


section \<open>What a run of the read loop leaves behind\<close>

text \<open>
  \<open>read_post buf w total_read res evs\<close>: the loop, started on \<open>buf\<close> in world \<open>w\<close> with
  \<open>total_read\<close> bytes read so far, ended in \<open>res\<close> after issuing the transport calls
  \<open>evs\<close>.
\<close>

definition read_post ::
  "buf_t \<Rightarrow> 't world \<Rightarrow> size_t \<Rightarrow> ('t, (cint + size_t) \<times> buf_t \<times> 't world) run \<Rightarrow>
     io_event list \<Rightarrow> bool" where
  "read_post buf w total_read res evs \<longleftrightarrow>
     io (rd_world res) = io w @ evs \<and>
     notices (rd_world res) = notices w \<and> clock (rd_world res) = clock w \<and>
     list_all is_read evs \<and> list_all full_read (butlast evs) \<and>
     (case res of
        Aborted a w' \<Rightarrow> a = Assert_total_read \<and> list_all (\<lambda>ev. io_error ev = None) evs
      | Returned (x, buf', w') \<Rightarrow>
          buf_bytes buf' = buf_bytes buf @ delivered evs \<and>
          datalen buf' = datalen buf + word_of_nat (length (delivered evs)) \<and>
          unat total_read + length (delivered evs) < 2 ^ 31 \<and>
          (buf_inv buf \<and> unat (datalen buf) + length (delivered evs) < 2 ^ 64 \<longrightarrow> buf_inv buf') \<and>
          (case x of
             Inl r \<Rightarrow> evs \<noteq> [] \<and> (\<exists>e. io_error (last evs) = Some e \<and> r = Rep_tls_error e)
           | Inr t \<Rightarrow> list_all (\<lambda>ev. io_error ev = None) evs \<and>
                      t = total_read + word_of_nat (length (delivered evs))))"

text \<open>Some error code of the transport.\<close>

definition some_error :: tls_error where
  "some_error = Abs_tls_error (- 3)"

text \<open>The buffer the spec's scenario leaves after its fill: one chunk holding five bytes.\<close>

definition five_bytes :: buf_t where
  "five_bytes =
     \<lparr>datalen = 5,
      chunks = [\<lparr>memlen = 4096, chunk_datalen = 5, chunk_data = [1, 2, 3, 4, 5]\<rparr>]\<rparr>"

section \<open>What a run of the flush loop leaves behind\<close>

text \<open>
  \<open>flush_post buf w buf_flushlen flushed res evs\<close>: the loop, started on \<open>buf\<close> in world
  \<open>w\<close> with budget \<open>buf_flushlen\<close> and \<open>flushed\<close> bytes written so far, ended in \<open>res\<close>
  after issuing the transport calls \<open>evs\<close>.
\<close>

definition flush_post ::
  "buf_t \<Rightarrow> 't world \<Rightarrow> size_t \<Rightarrow> size_t \<Rightarrow>
     ('t, (cint + size_t) \<times> buf_t \<times> size_t \<times> 't world) run \<Rightarrow> io_event list \<Rightarrow> bool" where
  "flush_post buf w buf_flushlen flushed res evs \<longleftrightarrow>
     io (fl_world res) = io w @ evs \<and>
     notices (fl_world res) = notices w \<and> clock (fl_world res) = clock w \<and>
     list_all is_write evs \<and> list_all progress_write (butlast evs) \<and>
     (case res of
        Aborted a w' \<Rightarrow>
          (a = Assert_sz_le_datalen \<or> a = Assert_sz_zero \<or> a = Assert_drain) \<and>
          list_all (\<lambda>ev. io_error ev = None) evs
      | Returned (x, buf', buf_flushlen', w') \<Rightarrow>
          unat (datalen buf') + flushed_count evs = unat (datalen buf) \<and>
          unat buf_flushlen' = unat buf_flushlen - flushed_count evs \<and>
          (buf_inv buf \<longrightarrow>
             buf_inv buf' \<and> buf_bytes buf = accepted evs @ buf_bytes buf' \<and>
             length (accepted evs) = flushed_count evs) \<and>
          (case x of
             Inl r \<Rightarrow> evs \<noteq> [] \<and> (\<exists>e. io_error (last evs) = Some e \<and> r = Rep_tls_error e)
           | Inr f \<Rightarrow> list_all (\<lambda>ev. io_error ev = None) evs \<and>
                      f = flushed + word_of_nat (flushed_count evs)))"

section \<open>An induction rule for the read loop\<close>

text \<open>
  One case for each way an iteration of lines 88 to 109 can end; the last one is the
  iteration that goes round again.
\<close>

lemma read_loop_induct [consumes 1, case_names finished aborted failed asserted short full]:
  assumes run: "read_loop E buf w at_most total_read = Some res"
    and "\<And>buf w total_read. \<not> total_read < at_most \<Longrightarrow>
           P buf w total_read (Returned (Inr total_read, buf, w))"
    and "\<And>buf w total_read buf1 readlen a w'.
           total_read < at_most \<Longrightarrow> choose_chunk E buf at_most total_read = (buf1, readlen) \<Longrightarrow>
           read_to_chunk_tls E buf1 w readlen = Aborted a w' \<Longrightarrow>
           P buf w total_read (Aborted a w')"
    and "\<And>buf w total_read buf1 readlen r buf2 w2.
           total_read < at_most \<Longrightarrow> choose_chunk E buf at_most total_read = (buf1, readlen) \<Longrightarrow>
           read_to_chunk_tls E buf1 w readlen = Returned (r, buf2, w2) \<Longrightarrow> r <s 0 \<Longrightarrow>
           P buf w total_read (Returned (Inl r, buf2, w2))"
    and "\<And>buf w total_read buf1 readlen r buf2 w2.
           total_read < at_most \<Longrightarrow> choose_chunk E buf at_most total_read = (buf1, readlen) \<Longrightarrow>
           read_to_chunk_tls E buf1 w readlen = Returned (r, buf2, w2) \<Longrightarrow> \<not> r <s 0 \<Longrightarrow>
           \<not> total_read + scast r < INT_MAX \<Longrightarrow>
           P buf w total_read (Aborted Assert_total_read w2)"
    and "\<And>buf w total_read buf1 readlen r buf2 w2.
           total_read < at_most \<Longrightarrow> choose_chunk E buf at_most total_read = (buf1, readlen) \<Longrightarrow>
           read_to_chunk_tls E buf1 w readlen = Returned (r, buf2, w2) \<Longrightarrow> \<not> r <s 0 \<Longrightarrow>
           total_read + scast r < INT_MAX \<Longrightarrow> scast r < readlen \<Longrightarrow>
           P buf w total_read (Returned (Inr (total_read + scast r), buf2, w2))"
    and "\<And>buf w total_read buf1 readlen r buf2 w2 res.
           total_read < at_most \<Longrightarrow> choose_chunk E buf at_most total_read = (buf1, readlen) \<Longrightarrow>
           read_to_chunk_tls E buf1 w readlen = Returned (r, buf2, w2) \<Longrightarrow> \<not> r <s 0 \<Longrightarrow>
           total_read + scast r < INT_MAX \<Longrightarrow> \<not> scast r < readlen \<Longrightarrow>
           read_loop E buf2 w2 at_most (total_read + scast r) = Some res \<Longrightarrow>
           P buf2 w2 (total_read + scast r) res \<Longrightarrow>
           P buf w total_read res"
  shows "P buf w total_read res"
proof -
  have gen: "read_loop E' b v am t = Some y \<Longrightarrow>
             read_loop E' b v am t = Some y \<and> (E' = E \<longrightarrow> am = at_most \<longrightarrow> P b v t y)"
    for E' b v am t y
  proof (rule read_loop.raw_induct [where P = "\<lambda>E' b v am t y.
           read_loop E' b v am t = Some y \<and> (E' = E \<longrightarrow> am = at_most \<longrightarrow> P b v t y)"], goal_cases)
    case prems: (1 f E' buf w am total_read res)
    note IH = prems(2) and body = prems(3)
    show ?case
    proof (cases "total_read < am")
      case False
      with body have res: "res = Returned (Inr total_read, buf, w)"
        by simp
      from False have "read_loop E' buf w am total_read = Some res"
        unfolding res by (subst read_loop.simps) simp
      moreover from False assms(2) have "am = at_most \<longrightarrow> P buf w total_read res"
        unfolding res by simp
      ultimately show ?thesis by simp
    next
      case True
      obtain buf1 readlen where cc: "choose_chunk E' buf am total_read = (buf1, readlen)"
        by (cases "choose_chunk E' buf am total_read")
      show ?thesis
      proof (cases "read_to_chunk_tls E' buf1 w readlen")
        case (Aborted a w')
        with body True cc have res: "res = Aborted a w'"
          by simp
        from True cc Aborted have "read_loop E' buf w am total_read = Some res"
          unfolding res by (subst read_loop.simps) simp
        moreover from assms(3) True cc Aborted
        have "E' = E \<longrightarrow> am = at_most \<longrightarrow> P buf w total_read res"
          unfolding res by blast
        ultimately show ?thesis by simp
      next
        case (Returned x)
        obtain r' buf2 w2 where x: "x = (r', buf2, w2)" by (cases x)
        note rt = Returned [unfolded x]
        consider "r' <s 0" | "\<not> r' <s 0" "\<not> total_read + scast r' < INT_MAX"
          | "\<not> r' <s 0" "total_read + scast r' < INT_MAX" "scast r' < readlen"
          | "\<not> r' <s 0" "total_read + scast r' < INT_MAX" "\<not> scast r' < readlen"
          by blast
        then show ?thesis
        proof cases
          case 1
          with body True cc rt have res: "res = Returned (Inl r', buf2, w2)"
            by simp
          from True cc rt 1 have "read_loop E' buf w am total_read = Some res"
            unfolding res by (subst read_loop.simps) simp
          moreover from assms(4) True cc rt 1
          have "E' = E \<longrightarrow> am = at_most \<longrightarrow> P buf w total_read res"
            unfolding res by blast
          ultimately show ?thesis by simp
        next
          case 2
          with body True cc rt have res: "res = Aborted Assert_total_read w2"
            by simp
          from True cc rt 2 have "read_loop E' buf w am total_read = Some res"
            unfolding res by (subst read_loop.simps) simp
          moreover from assms(5) True cc rt 2
          have "E' = E \<longrightarrow> am = at_most \<longrightarrow> P buf w total_read res"
            unfolding res by blast
          ultimately show ?thesis by simp
        next
          case 3
          with body True cc rt have res: "res = Returned (Inr (total_read + scast r'), buf2, w2)"
            by simp
          from True cc rt 3 have "read_loop E' buf w am total_read = Some res"
            unfolding res by (subst read_loop.simps) simp
          moreover from assms(6) True cc rt 3
          have "E' = E \<longrightarrow> am = at_most \<longrightarrow> P buf w total_read res"
            unfolding res by blast
          ultimately show ?thesis by simp
        next
          case 4
          with body True cc rt have "f E' buf2 w2 am (total_read + scast r') = Some res"
            by simp
          from IH [OF this]
          have rec: "read_loop E' buf2 w2 am (total_read + scast r') = Some res"
            and p: "E' = E \<longrightarrow> am = at_most \<longrightarrow> P buf2 w2 (total_read + scast r') res"
            by simp_all
          from True cc rt 4 rec have "read_loop E' buf w am total_read = Some res"
            by (subst read_loop.simps) simp
          moreover from assms(7) True cc rt 4 rec p
          have "E' = E \<longrightarrow> am = at_most \<longrightarrow> P buf w total_read res"
            by blast
          ultimately show ?thesis by simp
        qed
      qed
    qed
  qed
  from gen [OF run] show ?thesis by simp
qed

section \<open>Counts as machine integers\<close>

lemma count_sint: "k < 2 ^ 31 \<Longrightarrow> sint (word_of_nat k :: cint) = int k"
  by (simp add: signed_of_nat signed_take_bit_int_eq_self)

lemma count_nonneg: "k < 2 ^ 31 \<Longrightarrow> \<not> (word_of_nat k :: cint) <s 0"
  by (simp add: word_sless_alt count_sint)

lemma count_scast: "k < 2 ^ 31 \<Longrightarrow> scast (word_of_nat k :: cint) = (word_of_nat k :: size_t)"
  by (simp add: scast_eq count_sint)

lemma count_unat: "k < 2 ^ 31 \<Longrightarrow> unat (word_of_nat k :: size_t) = k"
  by (simp add: unat_of_nat)

lemma sum_unat: "unat (a :: size_t) + k < 2 ^ 64 \<Longrightarrow> unat (a + word_of_nat k) = unat a + k"
  by (simp add: unat_word_ariths unat_of_nat)

lemma error_neg: "Rep_tls_error e <s 0"
  using Rep_tls_error [of e] by simp

lemma buf_bytes_snoc:
  "cs \<noteq> [] \<Longrightarrow> concat (map f (butlast cs)) @ f (last cs) = concat (map f cs)"
  by (induction cs) auto

lemma tor_tls_read_cases:
  obtains (failed) e t where
      "tor_tls_read E w n =
         (Rep_tls_error e, [], w\<lparr>tls := t, io := io w @ [IoRead n (RdError e)]\<rparr>)"
  | (bytes) d t where
      "tor_tls_read E w n =
         (word_of_nat (length d), d, w\<lparr>tls := t, io := io w @ [IoRead n (RdBytes d)]\<rparr>)"
      "length d \<le> unat n" "length d < 2 ^ 31"
proof (cases "tls_read E (tls w) n")
  case (Pair out t)
  show ?thesis
  proof (cases out)
    case (RdError e)
    with Pair failed show ?thesis
      by (simp add: tor_tls_read_def)
  next
    case (RdBytes bs)
    let ?d = "take (min (unat n) (unat (INT_MAX :: size_t))) bs"
    have "length ?d \<le> unat n" "length ?d < 2 ^ 31"
      by (simp_all add: INT_MAX_def)
    with Pair RdBytes bytes [of ?d t] show ?thesis
      by (simp add: tor_tls_read_def Let_def)
  qed
qed

lemma read_to_chunk_tls_cases:
  assumes "chunks buf \<noteq> []" and "n \<le> CHUNK_REMAINING_CAPACITY (last (chunks buf))"
  obtains (failed) e w' where
      "read_to_chunk_tls E buf w n = Returned (Rep_tls_error e, buf, w')"
      "io w' = io w @ [IoRead n (RdError e)]"
      "notices w' = notices w" "clock w' = clock w"
  | (bytes) d buf' w' where
      "read_to_chunk_tls E buf w n = Returned (word_of_nat (length d), buf', w')"
      "length d \<le> unat n" "length d < 2 ^ 31"
      "io w' = io w @ [IoRead n (RdBytes d)]"
      "notices w' = notices w" "clock w' = clock w"
      "buf_bytes buf' = buf_bytes buf @ d"
      "datalen buf' = datalen buf + word_of_nat (length d)"
      "chunks buf' = butlast (chunks buf) @
         [(last (chunks buf))\<lparr>chunk_datalen := chunk_datalen (last (chunks buf)) + word_of_nat (length d),
                               chunk_data := chunk_data (last (chunks buf)) @ d\<rparr>]"
proof (cases rule: tor_tls_read_cases [of E w n])
  case (failed e t)
  with assms error_neg [of e] show ?thesis
    by (intro that(1) [of e "w\<lparr>tls := t, io := io w @ [IoRead n (RdError e)]\<rparr>"])
       (simp_all add: read_to_chunk_tls_def Let_def)
next
  case (bytes d t)
  let ?c = "last (chunks buf)"
  let ?buf' = "buf\<lparr>datalen := datalen buf + word_of_nat (length d),
                   chunks := butlast (chunks buf) @
                     [?c\<lparr>chunk_datalen := chunk_datalen ?c + word_of_nat (length d),
                         chunk_data := chunk_data ?c @ d\<rparr>]\<rparr>"
  let ?w' = "w\<lparr>tls := t, io := io w @ [IoRead n (RdBytes d)]\<rparr>"
  have "read_to_chunk_tls E buf w n = Returned (word_of_nat (length d), ?buf', ?w')"
    using assms bytes count_nonneg [of "length d"] count_scast [of "length d"]
    by (simp add: read_to_chunk_tls_def Let_def)
  moreover have "buf_bytes ?buf' = buf_bytes buf @ d"
    using assms(1) by (simp add: buf_bytes_def buf_bytes_snoc)
  ultimately show ?thesis
    using bytes(2,3) by (intro that(2) [of d ?buf' ?w']) simp_all
qed

lemma choose_chunk_facts:
  assumes "choose_chunk E buf at_most total_read = (buf1, readlen)"
  shows "chunks buf1 \<noteq> []"
    and "readlen \<le> CHUNK_REMAINING_CAPACITY (last (chunks buf1))"
    and "readlen \<le> at_most - total_read"
    and "buf_bytes buf1 = buf_bytes buf"
    and "datalen buf1 = datalen buf"
    and "buf_inv buf \<Longrightarrow> buf_inv buf1"
  using assms
  by (auto simp: choose_chunk_def Let_def buf_add_chunk_with_capacity_def
      CHUNK_REMAINING_CAPACITY_def buf_bytes_def buf_inv_def chunk_inv_def split: if_splits)

lemma buf_inv_append:
  assumes "buf_inv buf" and "chunks buf \<noteq> []" and "unat (datalen buf) + length d < 2 ^ 64"
  shows "buf_inv (buf\<lparr>datalen := datalen buf + word_of_nat (length d),
            chunks := butlast (chunks buf) @
              [(last (chunks buf))\<lparr>chunk_datalen := chunk_datalen (last (chunks buf)) + word_of_nat (length d),
                                    chunk_data := chunk_data (last (chunks buf)) @ d\<rparr>]\<rparr>)"
proof -
  let ?c = "last (chunks buf)"
  have split: "chunks buf = butlast (chunks buf) @ [?c]"
    using assms(2) by simp
  have all: "list_all chunk_inv (butlast (chunks buf))" and c: "chunk_inv ?c"
    using assms(1,2) unfolding buf_inv_def
    by (metis list.pred_inject(2) list_all_append split)+
  have "length (chunk_data ?c) \<le> length (buf_bytes buf)"
    unfolding buf_bytes_def by (subst (2) split) (simp del: append_butlast_last_id)
  then have "unat (chunk_datalen ?c) + length d < 2 ^ 64"
    using c assms(1,3) by (simp add: chunk_inv_def buf_inv_def)
  then have "unat (chunk_datalen ?c + word_of_nat (length d)) = length (chunk_data ?c) + length d"
    using c by (simp add: sum_unat chunk_inv_def)
  moreover have "unat (datalen buf + word_of_nat (length d)) = length (buf_bytes buf) + length d"
    using assms(1,3) by (simp add: sum_unat buf_inv_def)
  moreover have "concat (map chunk_data (chunks buf)) =
      concat (map chunk_data (butlast (chunks buf))) @ chunk_data ?c"
    using assms(2) by (simp add: buf_bytes_snoc)
  ultimately show ?thesis
    using all by (simp add: buf_inv_def chunk_inv_def buf_bytes_def)
qed

lemma delivered_simps [simp]:
  "delivered [] = []"
  "delivered (ev # evs) = rd_bytes ev @ delivered evs"
  "delivered (evs @ evs') = delivered evs @ delivered evs'"
  by (simp_all add: delivered_def)

lemma read_iteration_cases:
  assumes cc: "choose_chunk E buf at_most total_read = (buf1, readlen)"
  obtains (failed) e w' where
      "read_to_chunk_tls E buf1 w readlen = Returned (Rep_tls_error e, buf1, w')"
      "io w' = io w @ [IoRead readlen (RdError e)]"
      "notices w' = notices w" "clock w' = clock w"
      "buf_bytes buf1 = buf_bytes buf" "datalen buf1 = datalen buf"
      "buf_inv buf \<Longrightarrow> buf_inv buf1"
  | (bytes) d buf2 w' where
      "read_to_chunk_tls E buf1 w readlen = Returned (word_of_nat (length d), buf2, w')"
      "scast (word_of_nat (length d) :: cint) = (word_of_nat (length d) :: size_t)"
      "\<not> (word_of_nat (length d) :: cint) <s 0"
      "length d \<le> unat readlen" "length d < 2 ^ 31"
      "io w' = io w @ [IoRead readlen (RdBytes d)]"
      "notices w' = notices w" "clock w' = clock w"
      "buf_bytes buf2 = buf_bytes buf @ d"
      "datalen buf2 = datalen buf + word_of_nat (length d)"
      "buf_inv buf \<Longrightarrow> unat (datalen buf) + length d < 2 ^ 64 \<Longrightarrow> buf_inv buf2"
proof -
  note f = choose_chunk_facts [OF cc]
  from f(1,2) show ?thesis
  proof (cases rule: read_to_chunk_tls_cases [of buf1 readlen E w])
    case (failed e w')
    with f that(1) show ?thesis by blast
  next
    case (bytes d buf' w')
    have "buf' = buf1\<lparr>datalen := datalen buf1 + word_of_nat (length d),
            chunks := butlast (chunks buf1) @
              [(last (chunks buf1))\<lparr>chunk_datalen := chunk_datalen (last (chunks buf1)) + word_of_nat (length d),
                                     chunk_data := chunk_data (last (chunks buf1)) @ d\<rparr>]\<rparr>"
      using bytes(8,9) by (intro buf_t.equality) simp_all
    then have "buf_inv buf'" if "buf_inv buf" "unat (datalen buf) + length d < 2 ^ 64"
      using buf_inv_append [of buf1 d] f that by simp
    with bytes f that(2) [of d buf' w'] count_scast [of "length d"] count_nonneg [of "length d"]
    show ?thesis by simp
  qed
qed

lemma read_loop_post:
  assumes "read_loop E buf w at_most total_read = Some res" and "unat total_read < 2 ^ 31"
  shows "\<exists>evs. read_post buf w total_read res evs"
  using assms
proof (induction rule: read_loop_induct)
  case (finished buf w total_read)
  then show ?case
    by (intro exI [of _ "[]"]) (simp add: read_post_def rd_world_def)
next
  case (aborted buf w total_read buf1 readlen a w')
  from aborted(2) aborted(3) show ?case
    by (cases rule: read_iteration_cases [where w = w]) simp_all
next
  case (failed buf w total_read buf1 readlen r buf2 w2)
  from failed(2) show ?case
  proof (cases rule: read_iteration_cases [where w = w])
    case (failed e w')
    with \<open>read_to_chunk_tls E buf1 w readlen = Returned (r, buf2, w2)\<close> \<open>unat total_read < 2 ^ 31\<close>
    show ?thesis
      by (intro exI [of _ "[IoRead readlen (RdError e)]"]) (simp add: read_post_def rd_world_def)
  next
    case (bytes d buf' w')
    with \<open>read_to_chunk_tls E buf1 w readlen = Returned (r, buf2, w2)\<close> \<open>r <s 0\<close>
    show ?thesis by simp
  qed
next
  case (asserted buf w total_read buf1 readlen r buf2 w2)
  from asserted(2) show ?case
  proof (cases rule: read_iteration_cases [where w = w])
    case (failed e w')
    with asserted(3,4) error_neg [of e] show ?thesis by simp
  next
    case (bytes d buf' w')
    with asserted(3) show ?thesis
      by (intro exI [of _ "[IoRead readlen (RdBytes d)]"]) (simp add: read_post_def rd_world_def)
  qed
next
  case (short buf w total_read buf1 readlen r buf2 w2)
  from short(2) show ?case
  proof (cases rule: read_iteration_cases [where w = w])
    case (failed e w')
    with short(3,4) error_neg [of e] show ?thesis by simp
  next
    case (bytes d buf' w')
    with short(3) have eq: "r = word_of_nat (length d)" "buf2 = buf'" "w2 = w'"
      by simp_all
    have sc: "scast r = (word_of_nat (length d) :: size_t)"
      unfolding eq using bytes(2) .
    have "unat (total_read + word_of_nat (length d)) = unat total_read + length d"
      using short.prems bytes(5) by (intro sum_unat) simp
    moreover have "total_read + word_of_nat (length d) < INT_MAX"
      using short(5) sc by simp
    ultimately have bound: "unat total_read + length d < 2 ^ 31"
      by (simp add: word_less_nat_alt INT_MAX_def)
    show ?thesis
      using bytes eq sc bound
      by (intro exI [of _ "[IoRead readlen (RdBytes d)]"]) (simp add: read_post_def rd_world_def)
  qed
next
  case (full buf w total_read buf1 readlen r buf2 w2 res)
  from full(2) show ?case
  proof (cases rule: read_iteration_cases [where w = w])
    case (failed e w')
    with full(3,4) error_neg [of e] show ?thesis by simp
  next
    case (bytes d buf' w')
    with full(3) have eq: "r = word_of_nat (length d)" "buf2 = buf'" "w2 = w'"
      by simp_all
    have sc: "scast r = (word_of_nat (length d) :: size_t)"
      unfolding eq using bytes(2) .
    have un: "unat (total_read + word_of_nat (length d)) = unat total_read + length d"
      using full.prems bytes(5) by (intro sum_unat) simp
    moreover have "total_read + word_of_nat (length d) < INT_MAX"
      using full(5) sc by simp
    ultimately have bound: "unat total_read + length d < 2 ^ 31"
      by (simp add: word_less_nat_alt INT_MAX_def)
    have "\<not> word_of_nat (length d) < readlen"
      using full(6) sc by simp
    then have len: "length d = unat readlen"
      using bytes(4,5) by (simp add: word_less_nat_alt count_unat)
    from full.IH sc un bound obtain evs where post: "read_post buf2 w2 (total_read + word_of_nat (length d)) res evs"
      by auto
    let ?ev = "IoRead readlen (RdBytes d)"
    have "read_post buf w total_read res (?ev # evs)"
    proof (cases res)
      case (Aborted a w'')
      with post bytes eq show ?thesis
        by (cases evs) (simp_all add: read_post_def rd_world_def len)
    next
      case (Returned x)
      obtain y buf'' w'' where x: "x = (y, buf'', w'')" by (cases x)
      from post have inv: "buf_inv buf''"
        if "buf_inv buf" "unat (datalen buf) + (length d + length (delivered evs)) < 2 ^ 64"
      proof -
        from that bytes(11) have "buf_inv buf'" by simp
        moreover from that bytes(10) have "unat (datalen buf') = unat (datalen buf) + length d"
          by (simp add: sum_unat)
        ultimately show ?thesis
          using post that unfolding Returned x eq by (simp add: read_post_def)
      qed
      from post bytes eq un inv show ?thesis
        unfolding Returned x
        by (cases evs; cases y) (simp_all add: read_post_def rd_world_def len add.assoc)
    qed
    then show ?thesis ..
  qed
qed

section \<open>The ways a call of \<open>buf_read_from_tls\<close> can end\<close>

lemma total_as_int:
  assumes "k < 2 ^ 31"
  shows "\<not> (ucast (word_of_nat k :: size_t) :: cint) <s 0"
    and "scast (ucast (word_of_nat k :: size_t) :: cint) = (word_of_nat k :: size_t)"
    and "unat (ucast (word_of_nat k :: size_t) :: cint) = k"
proof -
  have "(ucast (word_of_nat k :: size_t) :: cint) = word_of_nat k"
    using assms by (simp add: unsigned_of_nat take_bit_nat_eq_self)
  with assms show "\<not> (ucast (word_of_nat k :: size_t) :: cint) <s 0"
    and "scast (ucast (word_of_nat k :: size_t) :: cint) = (word_of_nat k :: size_t)"
    and "unat (ucast (word_of_nat k :: size_t) :: cint) = k"
    by (simp_all add: count_nonneg count_scast unat_of_nat)
qed

lemma new_io_append [simp]: "io w' = io w @ evs \<Longrightarrow> new_io w w' = evs"
  by (simp add: new_io_def)

lemma log_peer_io [simp]: "io (log_peer E t w) = io w" "tls (log_peer E t w) = tls w"
  "clock (log_peer E t w) = clock w"
  by (simp_all add: log_peer_def split: prod.splits)

text \<open>The four ways a call of \<open>buf_read_from_tls\<close> can end.\<close>

lemma buf_read_from_tls_cases:
  assumes "buf_read_from_tls E buf w at_most = Some res"
  obtains (refused) "INT_MAX \<le> datalen buf \<or> INT_MAX - at_most \<le> datalen buf"
      "res = Returned (- 1, buf, w)"
  | (aborted) w' evs where "res = Aborted Assert_total_read w'"
      "read_post buf w 0 (Aborted Assert_total_read w') evs"
      "\<not> INT_MAX \<le> datalen buf" "\<not> INT_MAX - at_most \<le> datalen buf"
      "read_loop E buf w at_most 0 = Some (Aborted Assert_total_read w')"
  | (failed) r buf' w' evs where "res = Returned (r, buf', w')"
      "read_post buf w 0 (Returned (Inl r, buf', w')) evs"
      "\<not> INT_MAX \<le> datalen buf" "\<not> INT_MAX - at_most \<le> datalen buf"
      "read_loop E buf w at_most 0 = Some (Returned (Inl r, buf', w'))"
  | (counted) t buf' w' evs where "res = Returned (ucast t, buf', log_peer E t w')"
      "read_post buf w 0 (Returned (Inr t, buf', w')) evs"
      "\<not> INT_MAX \<le> datalen buf" "\<not> INT_MAX - at_most \<le> datalen buf"
      "read_loop E buf w at_most 0 = Some (Returned (Inr t, buf', w'))"
proof (cases "INT_MAX \<le> datalen buf \<or> INT_MAX - at_most \<le> datalen buf")
  case True
  with assms have "res = Returned (- 1, buf, w)"
    by (auto simp: buf_read_from_tls_def split: if_splits)
  with True refused show ?thesis by blast
next
  case False
  with assms obtain lr where lr: "read_loop E buf w at_most 0 = Some lr"
    by (auto simp: buf_read_from_tls_def split: option.splits)
  from read_loop_post [OF lr] obtain evs where post: "read_post buf w 0 lr evs"
    by auto
  show ?thesis
  proof (cases lr)
    case (Aborted a w')
    with post have a: "a = Assert_total_read" by (simp add: read_post_def)
    from assms False lr Aborted have "res = Aborted Assert_total_read w'"
      unfolding a by (simp add: buf_read_from_tls_def)
    with post Aborted a False lr aborted show ?thesis by blast
  next
    case (Returned x)
    obtain y buf' w' where x: "x = (y, buf', w')" by (cases x)
    show ?thesis
    proof (cases y)
      case (Inl r)
      with assms False lr Returned x have "res = Returned (r, buf', w')"
        by (simp add: buf_read_from_tls_def)
      with post Returned x Inl False lr failed show ?thesis by blast
    next
      case (Inr t)
      with assms False lr Returned x have "res = Returned (ucast t, buf', log_peer E t w')"
        by (simp add: buf_read_from_tls_def)
      with post Returned x Inr False lr counted show ?thesis by blast
    qed
  qed
qed

lemma minus_one_neg: "(- 1 :: cint) <s 0"
  by simp

section \<open>One iteration of the flush loop, and all of them\<close>

lemma tor_tls_write_cases:
  obtains (failed) e t where
      "tor_tls_write E w data n =
         (Rep_tls_error e, w\<lparr>tls := t, io := io w @ [IoWrite n data (WrError e)]\<rparr>)"
  | (accepted) k t where
      "tor_tls_write E w data n =
         (word_of_nat k, w\<lparr>tls := t, io := io w @ [IoWrite n data (WrAccepted k)]\<rparr>)"
      "k \<le> unat n" "k < 2 ^ 31"
proof (cases "tls_write E (tls w) data")
  case (Pair out t)
  show ?thesis
  proof (cases out)
    case (WrError e)
    with Pair failed show ?thesis
      by (simp add: tor_tls_write_def)
  next
    case (WrAccepted k)
    let ?k = "min k (min (unat n) (unat (INT_MAX :: size_t)))"
    have "?k \<le> unat n" "?k < 2 ^ 31"
      by (simp_all add: INT_MAX_def)
    with Pair WrAccepted accepted [of ?k t] show ?thesis
      by (simp add: tor_tls_write_def Let_def)
  qed
qed

lemma unat_minus_le: "(a :: size_t) \<le> n \<Longrightarrow> unat (n - a) = unat n - unat a"
  by (simp add: unat_sub)

lemma drain_chunks_bytes:
  assumes "list_all chunk_inv cs" and "unat n \<le> length (concat (map chunk_data cs))"
  shows "concat (map chunk_data (drain_chunks cs n)) = drop (unat n) (concat (map chunk_data cs))
         \<and> list_all chunk_inv (drain_chunks cs n)"
  using assms
proof (induction cs arbitrary: n)
  case Nil
  then show ?case by simp
next
  case (Cons c cs)
  have c: "unat (chunk_datalen c) = length (chunk_data c)"
    using Cons.prems(1) by (simp add: chunk_inv_def)
  show ?case
  proof (cases "n = 0")
    case True
    with Cons.prems show ?thesis by simp
  next
    case n: False
    show ?thesis
    proof (cases "chunk_datalen c \<le> n")
      case True
      then have le: "length (chunk_data c) \<le> unat n"
        using c by (simp add: word_le_nat_alt)
      have un: "unat (n - chunk_datalen c) = unat n - length (chunk_data c)"
        using True c by (simp add: unat_minus_le)
      with Cons.prems le have "unat (n - chunk_datalen c) \<le> length (concat (map chunk_data cs))"
        by simp
      with Cons.IH [of "n - chunk_datalen c"] Cons.prems(1) n True un le show ?thesis
        by simp
    next
      case False
      then have lt: "unat n < length (chunk_data c)"
        using c by (simp add: word_le_nat_alt)
      have "unat (chunk_datalen c - n) = length (chunk_data c) - unat n"
        using False c by (simp add: unat_minus_le)
      with Cons.prems(1) n False lt show ?thesis
        by (simp add: chunk_inv_def)
    qed
  qed
qed

lemma buf_drain_inv:
  assumes "buf_inv buf" and "k \<le> unat (datalen buf)"
  shows "\<exists>buf'. buf_drain buf (word_of_nat k) = Some buf' \<and> buf_inv buf'
           \<and> buf_bytes buf' = drop k (buf_bytes buf)"
proof -
  have k: "unat (word_of_nat k :: size_t) = k"
    using assms(2) unsigned_less [of "datalen buf", where ?'a = nat] by (simp add: unat_of_nat)
  then have le: "(word_of_nat k :: size_t) \<le> datalen buf"
    using assms(2) by (simp add: word_le_nat_alt)
  have "unat (word_of_nat k :: size_t) \<le> length (concat (map chunk_data (chunks buf)))"
    using assms k by (simp add: buf_inv_def buf_bytes_def)
  from drain_chunks_bytes [OF _ this] assms(1)
  have d: "concat (map chunk_data (drain_chunks (chunks buf) (word_of_nat k))) =
             drop k (concat (map chunk_data (chunks buf)))"
    and i: "list_all chunk_inv (drain_chunks (chunks buf) (word_of_nat k))"
    by (simp_all add: buf_inv_def k)
  have "unat (datalen buf - word_of_nat k) = unat (datalen buf) - k"
    using le k by (simp add: unat_minus_le)
  with d i le assms show ?thesis
    by (simp add: buf_drain_def buf_inv_def buf_bytes_def not_less [symmetric])
qed

lemma budget_saturates:
  "unat (if (buf_flushlen :: size_t) > word_of_nat k then buf_flushlen - word_of_nat k else 0)
     = unat buf_flushlen - unat (word_of_nat k :: size_t)"
  by (auto simp: unat_minus_le word_less_nat_alt not_less word_le_nat_alt)

lemma flush_chunk_tls_cases:
  fixes E :: "'t env"
  obtains (too_long) "chunks buf \<noteq> []" "head_datalen buf < write_len E w sz0"
      "flush_chunk_tls E buf w sz0 bfl = Aborted Assert_sz_le_datalen w"
  | (not_zero) "chunks buf = []" "write_len E w sz0 \<noteq> 0"
      "flush_chunk_tls E buf w sz0 bfl = Aborted Assert_sz_zero w"
  | (failed) e w' where "write_len E w sz0 \<le> head_datalen buf"
      "flush_chunk_tls E buf w sz0 bfl = Returned (Rep_tls_error e, buf, bfl, w')"
      "io w' = io w @ [IoWrite (write_len E w sz0) (write_data buf (write_len E w sz0)) (WrError e)]"
      "notices w' = notices w" "clock w' = clock w"
  | (overdrawn) k w' where "write_len E w sz0 \<le> head_datalen buf"
      "flush_chunk_tls E buf w sz0 bfl = Aborted Assert_drain w'"
      "io w' = io w @ [IoWrite (write_len E w sz0) (write_data buf (write_len E w sz0)) (WrAccepted k)]"
      "k \<le> unat (write_len E w sz0)" "unat (datalen buf) < k"
      "notices w' = notices w" "clock w' = clock w"
  | (accepted) k buf' w' where "write_len E w sz0 \<le> head_datalen buf"
      "flush_chunk_tls E buf w sz0 bfl =
         Returned (word_of_nat k, buf', if bfl > word_of_nat k then bfl - word_of_nat k else 0, w')"
      "io w' = io w @ [IoWrite (write_len E w sz0) (write_data buf (write_len E w sz0)) (WrAccepted k)]"
      "notices w' = notices w" "clock w' = clock w"
      "k \<le> unat (write_len E w sz0)" "k < 2 ^ 31" "k \<le> unat (datalen buf)"
      "buf_drain buf (word_of_nat k) = Some buf'"
      "datalen buf' = datalen buf - word_of_nat k"
proof -
  let ?sz = "write_len E w sz0"
  let ?data = "write_data buf ?sz"
  have sz: "(if tor_tls_get_forced_write_size E w > sz0 then tor_tls_get_forced_write_size E w else sz0) = ?sz"
    by (auto simp: write_len_def max_def)
  have "chunks buf = [] \<Longrightarrow> head_datalen buf = 0"
    by (simp add: head_datalen_def)
  then consider (a) "chunks buf \<noteq> []" "head_datalen buf < ?sz" | (b) "chunks buf = []" "?sz \<noteq> 0"
    | (c) "?sz \<le> head_datalen buf"
    by (metis not_less order_refl)
  then show ?thesis
  proof cases
    case a
    then have "flush_chunk_tls E buf w sz0 bfl = Aborted Assert_sz_le_datalen w"
      unfolding flush_chunk_tls_def Let_def sz
      by (auto simp: head_datalen_def not_le split: list.splits)
    with a too_long show ?thesis by blast
  next
    case b
    then have "flush_chunk_tls E buf w sz0 bfl = Aborted Assert_sz_zero w"
      unfolding flush_chunk_tls_def Let_def sz by simp
    with b not_zero show ?thesis by blast
  next
    case c
    then have ok: "\<not> (case chunks buf of chunk # _ \<Rightarrow> \<not> ?sz \<le> chunk_datalen chunk | [] \<Rightarrow> False)"
        "\<not> (case chunks buf of chunk # _ \<Rightarrow> False | [] \<Rightarrow> ?sz \<noteq> 0)"
      by (auto simp: head_datalen_def split: list.splits)
    have unf: "flush_chunk_tls E buf w sz0 bfl =
        (case tor_tls_write E w ?data ?sz of
           (r, w') \<Rightarrow>
             if r <s 0 then Returned (r, buf, bfl, w')
             else case buf_drain buf (scast r) of
                    None \<Rightarrow> Aborted Assert_drain w'
                  | Some buf' \<Rightarrow> Returned (r, buf', if bfl > scast r then bfl - scast r else 0, w'))"
      unfolding flush_chunk_tls_def Let_def sz using ok by (simp add: write_data_def)
    show ?thesis
    proof (cases rule: tor_tls_write_cases [of E w ?data ?sz])
      case (failed e t)
      with unf error_neg [of e] c show ?thesis
        by (intro that(3) [where e = e and w' = "w\<lparr>tls := t, io := io w @ [IoWrite ?sz ?data (WrError e)]\<rparr>"]) simp_all
    next
      case (accepted k t)
      let ?w' = "w\<lparr>tls := t, io := io w @ [IoWrite ?sz ?data (WrAccepted k)]\<rparr>"
      note r = count_nonneg [OF accepted(3)] count_scast [OF accepted(3)] count_unat [OF accepted(3)]
      show ?thesis
      proof (cases "buf_drain buf (word_of_nat k)")
        case None
        then have "unat (datalen buf) < k"
          using r(3) by (simp add: buf_drain_def word_less_nat_alt split: if_splits)
        with unf accepted r None c show ?thesis
          by (intro that(4) [where k = k and w' = ?w']) simp_all
      next
        case (Some buf')
        then have "k \<le> unat (datalen buf)" "datalen buf' = datalen buf - word_of_nat k"
          using r(3) by (auto simp: buf_drain_def word_less_nat_alt split: if_splits)
        with unf accepted r Some c show ?thesis
          by (intro that(5) [where k = k and buf' = buf' and w' = ?w']) simp_all
      qed
    qed
  qed
qed

lemma accepted_simps [simp]:
  "accepted [] = []"
  "accepted (ev # evs) = wr_bytes ev @ accepted evs"
  "accepted (evs @ evs') = accepted evs @ accepted evs'"
  by (simp_all add: accepted_def)

lemma flushed_count_simps [simp]:
  "flushed_count [] = 0"
  "flushed_count (ev # evs) = wr_count ev + flushed_count evs"
  "flushed_count (evs @ evs') = flushed_count evs + flushed_count evs'"
  by (simp_all add: flushed_count_def)

lemma head_is_prefix:
  assumes "buf_inv buf" and "sz \<le> head_datalen buf" and "k \<le> unat sz"
  shows "take k (write_data buf sz) = take k (buf_bytes buf)" and "k \<le> length (buf_bytes buf)"
proof -
  have "take k (write_data buf sz) = take k (buf_bytes buf) \<and> k \<le> length (buf_bytes buf)"
  proof (cases "chunks buf")
    case Nil
    with assms show ?thesis
      by (simp add: head_datalen_def write_data_def buf_bytes_def)
  next
    case (Cons c cs)
    with assms(1) have "unat (chunk_datalen c) = length (chunk_data c)"
      by (simp add: buf_inv_def chunk_inv_def)
    with assms(2,3) Cons have "k \<le> unat sz" "unat sz \<le> length (chunk_data c)"
      by (simp_all add: head_datalen_def word_le_nat_alt)
    with Cons show ?thesis
      by (simp add: write_data_def buf_bytes_def min_def)
  qed
  then show "take k (write_data buf sz) = take k (buf_bytes buf)" and "k \<le> length (buf_bytes buf)"
    by simp_all
qed

lemma flush_iteration_inv:
  assumes "buf_inv buf" and "sz \<le> head_datalen buf" and "k \<le> unat sz"
    and "buf_drain buf (word_of_nat k) = Some buf'"
  shows "buf_inv buf'" and "buf_bytes buf = take k (write_data buf sz) @ buf_bytes buf'"
    and "length (take k (write_data buf sz)) = k"
proof -
  note p = head_is_prefix [OF assms(1-3)]
  from p(2) assms(1) have "k \<le> unat (datalen buf)"
    by (simp add: buf_inv_def)
  from buf_drain_inv [OF assms(1) this] assms(4)
  have "buf_inv buf'" "buf_bytes buf' = drop k (buf_bytes buf)"
    by simp_all
  with p show "buf_inv buf'" and "buf_bytes buf = take k (write_data buf sz) @ buf_bytes buf'"
    and "length (take k (write_data buf sz)) = k"
    by simp_all
qed

lemma count_nonzero: "0 < k \<Longrightarrow> k < 2 ^ 31 \<Longrightarrow> (word_of_nat k :: cint) \<noteq> 0"
  using count_sint [of k] by (metis of_nat_0_less_iff less_irrefl sint_0)

lemma flush_post_step:
  assumes post: "flush_post buf' w' (if bfl > word_of_nat k then bfl - word_of_nat k else 0)
                   (flushed + word_of_nat k) res evs"
    and io: "io w' = io w @ [IoWrite sz (write_data buf sz) (WrAccepted k)]"
    and w: "notices w' = notices w" "clock w' = clock w"
    and k: "0 < k" "k \<le> unat sz" "k < 2 ^ 31" "k \<le> unat (datalen buf)"
    and sz: "sz \<le> head_datalen buf"
    and drain: "buf_drain buf (word_of_nat k) = Some buf'"
    and len: "datalen buf' = datalen buf - word_of_nat k"
  shows "flush_post buf w bfl flushed res (IoWrite sz (write_data buf sz) (WrAccepted k) # evs)"
proof -
  let ?ev = "IoWrite sz (write_data buf sz) (WrAccepted k)"
  have uk: "unat (word_of_nat k :: size_t) = k"
    using k(3) by (rule count_unat)
  have d: "unat (datalen buf') + k = unat (datalen buf)"
    unfolding len using k(4) uk by (simp add: unat_minus_le word_le_nat_alt)
  have b: "unat (if bfl > word_of_nat k then bfl - word_of_nat k else 0) = unat bfl - k"
    using budget_saturates [of k bfl] uk by simp
  have tr: "io (fl_world res) = io w @ ?ev # evs" "notices (fl_world res) = notices w"
    "clock (fl_world res) = clock w" "list_all is_write (?ev # evs)"
    "list_all progress_write (butlast (?ev # evs))"
    using post io w k(1) by (simp_all add: flush_post_def)
  show ?thesis
  proof (cases res)
    case (Aborted a w'')
    with post tr show ?thesis
      by (simp add: flush_post_def del: butlast.simps)
  next
    case (Returned x)
    obtain y buf'' bfl'' w'' where x: "x = (y, buf'', bfl'', w'')"
      by (cases x)
    note post' = post [unfolded Returned x flush_post_def, simplified]
    have inv: "buf_inv buf'' \<and> buf_bytes buf = accepted (?ev # evs) @ buf_bytes buf''
                \<and> length (accepted (?ev # evs)) = flushed_count (?ev # evs)" if "buf_inv buf"
    proof -
      note i = flush_iteration_inv [OF that sz k(2) drain]
      with post' show ?thesis by simp
    qed
    have c: "unat (datalen buf'') + flushed_count (?ev # evs) = unat (datalen buf)"
      "unat bfl'' = unat bfl - flushed_count (?ev # evs)"
      using post' d b by simp_all
    have y: "case y of
               Inl r \<Rightarrow> ?ev # evs \<noteq> [] \<and> (\<exists>e. io_error (last (?ev # evs)) = Some e \<and> r = Rep_tls_error e)
             | Inr f \<Rightarrow> list_all (\<lambda>ev. io_error ev = None) (?ev # evs) \<and>
                        f = flushed + word_of_nat (flushed_count (?ev # evs))"
      using post' by (cases y) (auto simp: add.assoc)
    from tr inv c y show ?thesis
      unfolding Returned x flush_post_def by (simp del: butlast.simps last.simps)
  qed
qed

lemma flush_loop_post:
  "\<exists>evs. flush_post buf w bfl flushed (flush_loop E buf w sz bfl flushed) evs"
proof (induction E buf w sz bfl flushed rule: flush_loop.induct)
  case (1 E buf w sz bfl flushed)
  let ?n = "write_len E w (flushlen0 buf sz)"
  show ?case
  proof (cases rule: flush_chunk_tls_cases [where E = E and buf = buf and w = w
                       and ?sz0.0 = "flushlen0 buf sz" and bfl = bfl])
    case too_long
    then have "flush_loop E buf w sz bfl flushed = Aborted Assert_sz_le_datalen w"
      by (subst flush_loop.simps) simp
    then show ?thesis
      by (intro exI [of _ "[]"]) (simp add: flush_post_def fl_world_def)
  next
    case not_zero
    then have "flush_loop E buf w sz bfl flushed = Aborted Assert_sz_zero w"
      by (subst flush_loop.simps) simp
    then show ?thesis
      by (intro exI [of _ "[]"]) (simp add: flush_post_def fl_world_def)
  next
    case (failed e w')
    then have "flush_loop E buf w sz bfl flushed = Returned (Inl (Rep_tls_error e), buf, bfl, w')"
      using error_neg [of e] by (subst flush_loop.simps) simp
    with failed show ?thesis
      by (intro exI [of _ "[IoWrite ?n (write_data buf ?n) (WrError e)]"])
         (simp add: flush_post_def fl_world_def)
  next
    case (overdrawn k w')
    then have "flush_loop E buf w sz bfl flushed = Aborted Assert_drain w'"
      by (subst flush_loop.simps) simp
    with overdrawn show ?thesis
      by (intro exI [of _ "[IoWrite ?n (write_data buf ?n) (WrAccepted k)]"])
         (simp add: flush_post_def fl_world_def)
  next
    case (accepted k buf' w')
    let ?ev = "IoWrite ?n (write_data buf ?n) (WrAccepted k)"
    let ?bfl' = "if bfl > word_of_nat k then bfl - word_of_nat k else 0"
    note r = count_nonneg [OF accepted(7)] count_scast [OF accepted(7)] count_unat [OF accepted(7)]
    have uk: "unat (word_of_nat k :: size_t) = k"
      by (rule r(3))
    have d: "unat (datalen buf') + k = unat (datalen buf)"
      unfolding accepted(10) using accepted(8) uk by (simp add: unat_minus_le word_le_nat_alt)
    have b: "unat ?bfl' = unat bfl - k"
      using budget_saturates [of k bfl] uk by simp
    have last_one: "flush_post buf w bfl flushed
        (Returned (Inr (flushed + word_of_nat k), buf', ?bfl', w')) [?ev]"
    proof -
      have "buf_inv buf' \<and> buf_bytes buf = take k (write_data buf ?n) @ buf_bytes buf'
              \<and> length (take k (write_data buf ?n)) = k" if "buf_inv buf"
        using flush_iteration_inv [OF that accepted(1,6,9)] by simp
      with accepted d b show ?thesis
        by (simp add: flush_post_def fl_world_def)
    qed
    show ?thesis
    proof (cases "k = 0")
      case True
      with accepted(2) have "flush_loop E buf w sz bfl flushed =
          Returned (Inr (flushed + word_of_nat k), buf', ?bfl', w')"
        by (subst flush_loop.simps) (simp add: word_sless_alt)
      with last_one show ?thesis by auto
    next
      case False
      then have nz: "(word_of_nat k :: cint) \<noteq> 0"
        using accepted(7) by (simp add: count_nonzero)
      show ?thesis
      proof (cases "0 <s sz - word_of_nat k")
        case stop: False
        with accepted(2) nz r have "flush_loop E buf w sz bfl flushed =
            Returned (Inr (flushed + word_of_nat k), buf', ?bfl', w')"
          by (subst flush_loop.simps) simp
        with last_one show ?thesis by auto
      next
        case True
        with accepted(2) nz r have eq: "flush_loop E buf w sz bfl flushed =
            flush_loop E buf' w' (sz - word_of_nat k) ?bfl' (flushed + word_of_nat k)"
          by (subst flush_loop.simps) simp
        from "1.IH" [OF accepted(2) refl refl refl r(1) nz] True r(2)
        obtain evs where "flush_post buf' w' ?bfl' (flushed + word_of_nat k)
            (flush_loop E buf' w' (sz - word_of_nat k) ?bfl' (flushed + word_of_nat k)) evs"
          by auto
        from flush_post_step [OF this accepted(3,4,5) _ accepted(6,7,8,1,9,10)] False
        show ?thesis
          unfolding eq by auto
      qed
    qed
  qed
qed

section \<open>The ways a call of \<open>buf_flush_to_tls\<close> can end\<close>

lemma nonneg_sint_uint:
  fixes a :: size_t
  assumes "0 \<le>s a"
  shows "sint a = uint a"
proof -
  have "0 \<le> sint a" using assms by (simp add: word_sle_eq)
  moreover have "sint a < 2 ^ 64" using sint_lt [of a] by simp
  ultimately have "take_bit 64 (sint a) = sint a"
    by (simp add: take_bit_int_eq_self)
  then show ?thesis by (simp add: uint_sint)
qed

lemma nonneg_sle_iff:
  fixes a b :: size_t
  assumes "0 \<le>s a" and "0 \<le>s b"
  shows "a \<le>s b \<longleftrightarrow> a \<le> b"
  using assms by (simp add: word_sle_eq nonneg_sint_uint word_le_def)

lemma flushlen0_min:
  assumes "0 \<le>s sz" and "0 \<le>s head_datalen buf"
  shows "flushlen0 buf sz = min sz (head_datalen buf)"
proof (cases "chunks buf")
  case Nil
  then show ?thesis by (simp add: flushlen0_def head_datalen_def)
next
  case (Cons c cs)
  with assms nonneg_sle_iff [of sz "chunk_datalen c"] show ?thesis
    by (simp add: flushlen0_def head_datalen_def min_def)
qed

lemma buf_flush_to_tls_cases:
  fixes E :: "'t env"
  obtains (aborted) a w' evs where
      "buf_flush_to_tls E buf w flushlen buf_flushlen = Aborted a w'"
      "flush_post buf w (min buf_flushlen (datalen buf)) 0 (Aborted a w') evs"
  | (too_many) f buf' bfl' w' evs where
      "buf_flush_to_tls E buf w flushlen buf_flushlen = Aborted Assert_flushed w'"
      "flush_post buf w (min buf_flushlen (datalen buf)) 0 (Returned (Inr f, buf', bfl', w')) evs"
      "\<not> f < INT_MAX"
  | (failed) r buf' bfl' w' evs where
      "buf_flush_to_tls E buf w flushlen buf_flushlen = Returned (r, buf', bfl', w')"
      "flush_post buf w (min buf_flushlen (datalen buf)) 0 (Returned (Inl r, buf', bfl', w')) evs"
  | (counted) f buf' bfl' w' evs where
      "buf_flush_to_tls E buf w flushlen buf_flushlen = Returned (ucast f, buf', bfl', w')"
      "flush_post buf w (min buf_flushlen (datalen buf)) 0 (Returned (Inr f, buf', bfl', w')) evs"
      "f < INT_MAX"
proof -
  let ?b = "min buf_flushlen (datalen buf)"
  let ?sz = "min flushlen ?b"
  let ?lr = "flush_loop E buf w ?sz ?b 0"
  have b: "(if buf_flushlen > datalen buf then datalen buf else buf_flushlen) = ?b"
    by (auto simp: min_def)
  have f: "(if flushlen > ?b then ?b else flushlen) = ?sz"
    by (auto simp: min_def)
  have unf: "buf_flush_to_tls E buf w flushlen buf_flushlen =
      (case ?lr of
         Aborted a w' \<Rightarrow> Aborted a w'
       | Returned (Inl r, buf', buf_flushlen', w') \<Rightarrow> Returned (r, buf', buf_flushlen', w')
       | Returned (Inr flushed, buf', buf_flushlen', w') \<Rightarrow>
           if \<not> flushed < INT_MAX then Aborted Assert_flushed w'
           else Returned (ucast flushed, buf', buf_flushlen', w'))"
    unfolding buf_flush_to_tls_def Let_def b f ..
  from flush_loop_post [of buf w ?b 0 E ?sz] obtain evs where post: "flush_post buf w ?b 0 ?lr evs"
    by auto
  show ?thesis
  proof (cases ?lr)
    case (Aborted a w')
    with unf post aborted show ?thesis by simp
  next
    case (Returned x)
    obtain y buf' bfl' w' where x: "x = (y, buf', bfl', w')" by (cases x)
    show ?thesis
    proof (cases y)
      case (Inl r)
      with unf post Returned x failed show ?thesis by simp
    next
      case (Inr fl)
      show ?thesis
      proof (cases "fl < INT_MAX")
        case True
        with unf post Returned x Inr counted show ?thesis by simp
      next
        case False
        with unf post Returned x Inr too_many show ?thesis by simp
      qed
    qed
  qed
qed

lemma count_unat_int: "k < 2 ^ 31 \<Longrightarrow> unat (word_of_nat k :: cint) = k"
  by (simp add: unat_of_nat)


lemma drain_nothing: "buf_drain buf 0 = Some buf"
proof -
  have "drain_chunks cs 0 = cs" for cs
    by (cases cs) simp_all
  then show ?thesis
    by (simp add: buf_drain_def)
qed

lemma empty_head:
  assumes "buf_inv buf" and "datalen buf = 0"
  shows "head_datalen buf = 0"
proof (cases "chunks buf")
  case Nil
  then show ?thesis by (simp add: head_datalen_def)
next
  case (Cons c cs)
  with assms have "length (chunk_data c) = 0" "unat (chunk_datalen c) = length (chunk_data c)"
    by (simp_all add: buf_inv_def buf_bytes_def chunk_inv_def)
  then have "chunk_datalen c = 0"
    by (simp add: unat_eq_zero)
  with Cons show ?thesis by (simp add: head_datalen_def)
qed

section \<open>Short reads and errors\<close>

lemma choose_chunk_chunks:
  assumes "choose_chunk E buf at_most total_read = (buf1, readlen)"
  shows "chunks buf1 = chunks buf \<or> (\<exists>c. chunks buf1 = chunks buf @ [c] \<and> chunk_datalen c = 0)"
  using assms
  by (auto simp: choose_chunk_def Let_def buf_add_chunk_with_capacity_def split: if_splits)

lemma read_loop_failed:
  assumes "total_read < at_most"
    and cc: "choose_chunk E buf at_most total_read = (buf1, readlen)"
    and rd: "tls_read E (tls w) readlen = (RdError e, t)"
  shows "read_loop E buf w at_most total_read =
           Some (Returned (Inl (Rep_tls_error e), buf1,
                   w\<lparr>tls := t, io := io w @ [IoRead readlen (RdError e)]\<rparr>))"
proof -
  note f = choose_chunk_facts [OF cc]
  have "tor_tls_read E w readlen =
      (Rep_tls_error e, [], w\<lparr>tls := t, io := io w @ [IoRead readlen (RdError e)]\<rparr>)"
    using rd by (simp add: tor_tls_read_def)
  then have "read_to_chunk_tls E buf1 w readlen =
      Returned (Rep_tls_error e, buf1, w\<lparr>tls := t, io := io w @ [IoRead readlen (RdError e)]\<rparr>)"
    using f(1,2) error_neg [of e] by (simp add: read_to_chunk_tls_def Let_def)
  with assms(1) cc error_neg [of e] show ?thesis
    by (subst read_loop.simps) simp
qed

lemma read_loop_short_any:
  assumes lt: "total_read < at_most"
    and cc: "choose_chunk E buf at_most total_read = (buf1, readlen)"
    and rd: "tls_read E (tls w) readlen = (RdBytes bs, t)"
    and short: "length bs < unat readlen"
  defines "d \<equiv> take 2147483647 bs"
  defines "w' \<equiv> w\<lparr>tls := t, io := io w @ [IoRead readlen (RdBytes d)]\<rparr>"
  shows "if total_read + word_of_nat (length d) < INT_MAX
         then \<exists>buf2. read_loop E buf w at_most total_read =
                       Some (Returned (Inr (total_read + word_of_nat (length d)), buf2, w'))
                     \<and> buf_bytes buf2 = buf_bytes buf @ d
         else read_loop E buf w at_most total_read = Some (Aborted Assert_total_read w')"
proof -
  note f = choose_chunk_facts [OF cc]
  have len: "length d < 2 ^ 31"
    by (simp add: d_def)
  have ld: "length d < unat readlen"
    using short by (simp add: d_def)
  have d: "take (min (unat readlen) (unat (INT_MAX :: size_t))) bs = d"
    using short by (simp add: INT_MAX_def d_def min_def)
  let ?c = "last (chunks buf1)"
  let ?buf2 = "buf1\<lparr>datalen := datalen buf1 + word_of_nat (length d),
                    chunks := butlast (chunks buf1) @
                      [?c\<lparr>chunk_datalen := chunk_datalen ?c + word_of_nat (length d),
                          chunk_data := chunk_data ?c @ d\<rparr>]\<rparr>"
  have "tor_tls_read E w readlen = (word_of_nat (length d), d, w')"
    using rd d by (simp add: tor_tls_read_def Let_def w'_def)
  then have rt: "read_to_chunk_tls E buf1 w readlen = Returned (word_of_nat (length d), ?buf2, w')"
    using f(1,2) count_nonneg [OF len] count_scast [OF len]
    by (simp add: read_to_chunk_tls_def Let_def)
  have s: "(word_of_nat (length d) :: size_t) < readlen"
    using ld count_unat [OF len] by (simp add: word_less_nat_alt)
  show ?thesis
  proof (cases "total_read + word_of_nat (length d) < INT_MAX")
    case True
    have "read_loop E buf w at_most total_read =
        Some (Returned (Inr (total_read + word_of_nat (length d)), ?buf2, w'))"
      using lt cc rt True s count_nonneg [OF len] count_scast [OF len]
      by (subst read_loop.simps) simp
    moreover have "buf_bytes ?buf2 = buf_bytes buf @ d"
      using f(1,4) by (simp add: buf_bytes_def buf_bytes_snoc)
    ultimately show ?thesis
      using True by auto
  next
    case False
    have "read_loop E buf w at_most total_read = Some (Aborted Assert_total_read w')"
      using lt cc rt False count_nonneg [OF len] count_scast [OF len]
      by (subst read_loop.simps) simp
    with False show ?thesis by simp
  qed
qed

lemma read_loop_in_range:
  assumes "read_loop E buf w at_most total_read = Some res"
    and "at_most < INT_MAX" and "total_read \<le> at_most"
  shows "\<exists>x. res = Returned x"
  using assms(1,3)
proof (induction rule: read_loop_induct)
  case (finished buf w total_read)
  then show ?case by simp
next
  case (aborted buf w total_read buf1 readlen a w')
  from aborted(2) aborted(3) show ?case
    by (cases rule: read_iteration_cases [where w = w]) simp_all
next
  case (failed buf w total_read buf1 readlen r buf2 w2)
  then show ?case by simp
next
  case (asserted buf w total_read buf1 readlen r buf2 w2)
  note f = choose_chunk_facts [OF asserted(2)]
  from asserted(2) show ?case
  proof (cases rule: read_iteration_cases [where w = w])
    case (failed e w')
    with asserted(3,4) error_neg [of e] show ?thesis by simp
  next
    case (bytes d buf' w')
    with asserted(3) have sc: "scast r = (word_of_nat (length d) :: size_t)"
      by simp
    have "unat readlen \<le> unat at_most - unat total_read"
      using f(3) asserted(1) by (simp add: word_le_nat_alt unat_minus_le word_less_nat_alt)
    with bytes(4) asserted(1) assms(2) have b: "unat total_read + length d < 2147483647"
      by (simp add: word_less_nat_alt INT_MAX_def)
    then have "unat (total_read + word_of_nat (length d)) = unat total_read + length d"
      by (intro sum_unat) simp
    with b asserted(5) sc show ?thesis
      by (simp add: word_less_nat_alt INT_MAX_def)
  qed
next
  case (short buf w total_read buf1 readlen r buf2 w2)
  then show ?case by simp
next
  case (full buf w total_read buf1 readlen r buf2 w2 res)
  note f = choose_chunk_facts [OF full(2)]
  from full(2) show ?case
  proof (cases rule: read_iteration_cases [where w = w])
    case (failed e w')
    with full(3,4) error_neg [of e] show ?thesis by simp
  next
    case (bytes d buf' w')
    with full(3) have sc: "scast r = (word_of_nat (length d) :: size_t)"
      by simp
    have "unat readlen \<le> unat at_most - unat total_read"
      using f(3) full(1) by (simp add: word_le_nat_alt unat_minus_le word_less_nat_alt)
    with bytes(4) full(1) assms(2) have b: "unat total_read + length d \<le> unat at_most"
      "unat total_read + length d < 2 ^ 64"
      by (simp_all add: word_less_nat_alt INT_MAX_def)
    then have "unat (total_read + word_of_nat (length d)) = unat total_read + length d"
      by (intro sum_unat) simp
    with b have "total_read + scast r \<le> at_most"
      unfolding sc by (simp add: word_le_nat_alt)
    with full.IH show ?thesis by simp
  qed
qed

lemma fill_in_range_returns:
  assumes "buf_read_from_tls E buf w at_most = Some res" and "at_most \<le> INT_MAX"
  shows "\<exists>r buf' w'. res = Returned (r, buf', w')"
  using assms(1)
proof (cases rule: buf_read_from_tls_cases)
  case (aborted w' evs)
  have "unat (INT_MAX - at_most :: size_t) = unat (INT_MAX :: size_t) - unat at_most"
    using assms(2) by (simp add: unat_minus_le)
  with aborted(4) have "at_most < INT_MAX"
    by (simp add: word_le_nat_alt word_less_nat_alt)
  from read_loop_in_range [OF aborted(5) this] show ?thesis by simp
qed auto

lemma only_last_can_differ:
  assumes "list_all P (butlast evs)" and "ev \<in> set evs" and "\<not> P ev"
  shows "evs = butlast evs @ [ev]"
proof -
  from assms(2) have ne: "evs \<noteq> []" by auto
  then have "set evs = set (butlast evs) \<union> {last evs}"
    by (subst append_butlast_last_id [symmetric]) (simp_all del: append_butlast_last_id)
  with assms have "ev = last evs"
    by (auto simp: list_all_iff)
  with ne show ?thesis by simp
qed

lemma short_not_full: "short_read ev \<Longrightarrow> \<not> full_read ev"
  by (cases ev rule: short_read.cases) simp_all

lemma short_no_error: "short_read ev \<Longrightarrow> io_error ev = None"
  by (cases ev rule: short_read.cases) simp_all

lemma error_not_full: "io_error ev = Some e \<Longrightarrow> \<not> full_read ev"
  by (cases ev rule: io_error.cases) simp_all

lemma error_moves_nothing:
  assumes "io_error ev = Some e"
  shows "rd_bytes ev = []" and "wr_bytes ev = []" and "wr_count ev = 0"
    and "\<not> progress_write ev"
  using assms by (cases ev rule: io_error.cases; simp)+

lemma no_error_in:
  assumes "list_all (\<lambda>ev. io_error ev = None) evs" and "ev \<in> set evs"
  shows "io_error ev \<noteq> Some e"
  using assms by (auto simp: list_all_iff)

lemma flush_loop_failed:
  assumes ok: "write_len E w (flushlen0 buf sz) \<le> head_datalen buf"
    and wr: "tls_write E (tls w) (write_data buf (write_len E w (flushlen0 buf sz))) = (WrError e, t)"
  shows "flush_loop E buf w sz bfl flushed =
           Returned (Inl (Rep_tls_error e), buf, bfl,
             w\<lparr>tls := t, io := io w @
               [IoWrite (write_len E w (flushlen0 buf sz))
                  (write_data buf (write_len E w (flushlen0 buf sz))) (WrError e)]\<rparr>)"
proof -
  let ?n = "write_len E w (flushlen0 buf sz)"
  have sz: "(if tor_tls_get_forced_write_size E w > flushlen0 buf sz
             then tor_tls_get_forced_write_size E w else flushlen0 buf sz) = ?n"
    by (auto simp: write_len_def max_def)
  have a: "\<not> (case chunks buf of chunk # _ \<Rightarrow> \<not> ?n \<le> chunk_datalen chunk | [] \<Rightarrow> False)"
      "\<not> (case chunks buf of chunk # _ \<Rightarrow> False | [] \<Rightarrow> ?n \<noteq> 0)"
    using ok by (auto simp: head_datalen_def split: list.splits)
  have "tor_tls_write E w (write_data buf ?n) ?n =
      (Rep_tls_error e, w\<lparr>tls := t, io := io w @ [IoWrite ?n (write_data buf ?n) (WrError e)]\<rparr>)"
    using wr by (simp add: tor_tls_write_def)
  then have "flush_chunk_tls E buf w (flushlen0 buf sz) bfl =
      Returned (Rep_tls_error e, buf, bfl,
        w\<lparr>tls := t, io := io w @ [IoWrite ?n (write_data buf ?n) (WrError e)]\<rparr>)"
    unfolding flush_chunk_tls_def Let_def sz using a error_neg [of e]
    by (simp add: write_data_def)
  then show ?thesis
    using error_neg [of e] by (subst flush_loop.simps) simp
qed

lemma fill_error_call:
  assumes run: "buf_read_from_tls E buf w at_most = Some res"
    and ev: "ev \<in> set (new_io w (rd_world res))" and err: "io_error ev = Some e"
  shows "\<exists>buf' w'. res = Returned (Rep_tls_error e, buf', w') \<and>
           new_io w w' = butlast (new_io w w') @ [ev] \<and>
           list_all full_read (butlast (new_io w w')) \<and>
           buf_bytes buf' = buf_bytes buf @ delivered (butlast (new_io w w')) \<and>
           datalen buf' = datalen buf + word_of_nat (length (delivered (butlast (new_io w w'))))"
  using run
proof (cases rule: buf_read_from_tls_cases)
  case refused
  with ev show ?thesis by (simp add: rd_world_def new_io_def)
next
  case (aborted w' evs)
  then have "new_io w (rd_world res) = evs" "list_all (\<lambda>ev. io_error ev = None) evs"
    by (simp_all add: read_post_def rd_world_def)
  with ev no_error_in [of evs ev e] err show ?thesis by simp
next
  case (failed r buf' w' evs)
  then have io: "new_io w w' = evs" and full: "list_all full_read (butlast evs)"
    and last: "evs \<noteq> []" "\<exists>e'. io_error (last evs) = Some e' \<and> r = Rep_tls_error e'"
    and b: "buf_bytes buf' = buf_bytes buf @ delivered evs"
      "datalen buf' = datalen buf + word_of_nat (length (delivered evs))"
    by (auto simp: read_post_def rd_world_def)
  from ev failed(1) io have "ev \<in> set evs" by (simp add: rd_world_def)
  from only_last_can_differ [OF full this error_not_full [OF err]]
  have evs: "evs = butlast evs @ [ev]" .
  then have "last evs = ev" by (metis last_snoc)
  with last err have r: "r = Rep_tls_error e" by auto
  have "delivered evs = delivered (butlast evs)"
    by (subst evs) (simp add: error_moves_nothing [OF err])
  with failed(1) io full b r evs show ?thesis by simp
next
  case (counted t buf' w' evs)
  then have "new_io w (rd_world res) = evs" "list_all (\<lambda>ev. io_error ev = None) evs"
    by (simp_all add: read_post_def rd_world_def new_io_def)
  with ev no_error_in [of evs ev e] err show ?thesis by simp
qed

lemma flush_error_call:
  assumes ev: "ev \<in> set (new_io w (fl_world (buf_flush_to_tls E buf w flushlen bfl)))"
    and err: "io_error ev = Some e"
  shows "\<exists>buf' bfl' w'. buf_flush_to_tls E buf w flushlen bfl = Returned (Rep_tls_error e, buf', bfl', w') \<and>
           new_io w w' = butlast (new_io w w') @ [ev] \<and>
           list_all progress_write (butlast (new_io w w')) \<and>
           unat (datalen buf') + flushed_count (butlast (new_io w w')) = unat (datalen buf) \<and>
           unat bfl' = unat (min bfl (datalen buf)) - flushed_count (butlast (new_io w w')) \<and>
           (buf_inv buf \<longrightarrow> buf_bytes buf = accepted (butlast (new_io w w')) @ buf_bytes buf')"
proof (cases rule: buf_flush_to_tls_cases [where E = E and buf = buf and w = w
                     and flushlen = flushlen and buf_flushlen = bfl])
  case (aborted a w' evs)
  then have "new_io w (fl_world (buf_flush_to_tls E buf w flushlen bfl)) = evs"
    "list_all (\<lambda>ev. io_error ev = None) evs"
    by (simp_all add: flush_post_def fl_world_def)
  with ev no_error_in [of evs ev e] err show ?thesis by simp
next
  case (too_many f buf' bfl' w' evs)
  then have "new_io w (fl_world (buf_flush_to_tls E buf w flushlen bfl)) = evs"
    "list_all (\<lambda>ev. io_error ev = None) evs"
    by (simp_all add: flush_post_def fl_world_def)
  with ev no_error_in [of evs ev e] err show ?thesis by simp
next
  case (failed r buf' bfl' w' evs)
  note post = failed(2) [unfolded flush_post_def fl_world_def, simplified]
  from post have io: "new_io w w' = evs" and prog: "list_all progress_write (butlast evs)"
    and last: "\<exists>e'. io_error (last evs) = Some e' \<and> r = Rep_tls_error e'"
    by auto
  from ev failed(1) io have "ev \<in> set evs" by (simp add: fl_world_def)
  from only_last_can_differ [OF prog this error_moves_nothing(4) [OF err]]
  have evs: "evs = butlast evs @ [ev]" .
  then have "last evs = ev" by (metis last_snoc)
  with last err have r: "r = Rep_tls_error e" by auto
  have same: "flushed_count evs = flushed_count (butlast evs)" "accepted evs = accepted (butlast evs)"
    by (subst evs, simp add: error_moves_nothing [OF err])+
  from post failed(1) io prog r evs show ?thesis
    unfolding same by simp
next
  case (counted f buf' bfl' w' evs)
  then have "new_io w (fl_world (buf_flush_to_tls E buf w flushlen bfl)) = evs"
    "list_all (\<lambda>ev. io_error ev = None) evs"
    by (simp_all add: flush_post_def fl_world_def)
  with ev no_error_in [of evs ev e] err show ?thesis by simp
qed

section \<open>A pass-through transport loses nothing\<close>




















section \<open>Running the read path on the mocks\<close>

lemmas read_eval =
  buf_read_from_tls_def read_loop.simps choose_chunk_def read_to_chunk_tls_def tor_tls_read_def
  mock_env_def mock_read_def empty_buf_def fresh_world_def quiet_def five_then_none_def
  INT_MAX_def buf_add_chunk_with_capacity_def CHUNK_REMAINING_CAPACITY_def log_peer_def
  word_sless_alt Let_def

lemma fill_five_logged:
  "buf_read_from_tls (mock_env 8 (\<lambda>_. 4096) 1) empty_buf (fresh_world five_then_none) 10 =
   Some (Returned (5,
     \<lparr>datalen = 5,
      chunks = [\<lparr>memlen = 4096, chunk_datalen = 5, chunk_data = [1, 2, 3, 4, 5]\<rparr>]\<rparr>,
     \<lparr>tls = quiet\<lparr>yields := [RdBytes []]\<rparr>,
      io = [IoRead 10 (RdBytes [1, 2, 3, 4, 5])],
      notices = [Logging_IP ''192.0.2.7'' 443 1000 5], clock = 1000\<rparr>))"
  by (simp add: read_eval)

lemma some_error_code: "Rep_tls_error some_error = - 3"
  unfolding some_error_def by (rule Abs_tls_error_inverse) (simp add: word_sless_alt)

lemma fill_five:
  "buf_read_from_tls (mock_env 8 (\<lambda>_. 4096) 0) empty_buf (fresh_world five_then_none) 10 =
   Some (Returned (5, five_bytes,
     \<lparr>tls = quiet\<lparr>yields := [RdBytes []]\<rparr>,
      io = [IoRead 10 (RdBytes [1, 2, 3, 4, 5])], notices = [], clock = 1000\<rparr>))"
  by (simp add: read_eval five_bytes_def)

lemma read_loop_five:
  "read_loop (mock_env 8 (\<lambda>_. 4096) 0) empty_buf (fresh_world five_then_none) 10 0 =
   Some (Returned (Inr 5, five_bytes,
     \<lparr>tls = quiet\<lparr>yields := [RdBytes []]\<rparr>,
      io = [IoRead 10 (RdBytes [1, 2, 3, 4, 5])], notices = [], clock = 1000\<rparr>))"
  by (simp add: read_eval five_bytes_def)

lemma fill_two_then_error:
  "buf_read_from_tls (mock_env 8 (\<lambda>_. 2) 0) empty_buf
     (fresh_world (quiet\<lparr>yields := [RdBytes [1, 2], RdError some_error]\<rparr>)) 4 =
   Some (Returned (- 3,
     \<lparr>datalen = 2,
      chunks = [\<lparr>memlen = 2, chunk_datalen = 2, chunk_data = [1, 2]\<rparr>,
                \<lparr>memlen = 2, chunk_datalen = 0, chunk_data = []\<rparr>]\<rparr>,
     \<lparr>tls = quiet, io = [IoRead 2 (RdBytes [1, 2]), IoRead 2 (RdError some_error)],
      notices = [], clock = 1000\<rparr>))"
  by (simp add: read_eval some_error_code)

lemma fill_error_first:
  "choose_chunk (mock_env 8 (\<lambda>_. 2) 0) empty_buf 4 0 =
     (\<lparr>datalen = 0, chunks = [\<lparr>memlen = 2, chunk_datalen = 0, chunk_data = []\<rparr>]\<rparr>, 2)"
  "tls_read (mock_env 8 (\<lambda>_. 2) 0) (tls (fresh_world (quiet\<lparr>yields := [RdError some_error]\<rparr>))) 2 =
     (RdError some_error, quiet)"
  by (simp_all add: choose_chunk_def buf_add_chunk_with_capacity_def CHUNK_REMAINING_CAPACITY_def
      mock_env_def mock_read_def quiet_def fresh_world_def empty_buf_def Let_def)

section \<open>Running the write path on the mocks\<close>

lemmas flush_eval =
  buf_flush_to_tls_def flush_loop.simps flush_chunk_tls_def flushlen0_def tor_tls_write_def
  tor_tls_get_forced_write_size_def buf_drain_def mock_env_def mock_write_def empty_buf_def
  fresh_world_def quiet_def five_bytes_def INT_MAX_def word_sless_alt word_sle_eq Let_def

lemma flush_three_of_five:
  "flush_chunk_tls (mock_env 8 (\<lambda>_. 4096) 0) five_bytes
     (fresh_world (quiet\<lparr>accepts := [WrAccepted 3]\<rparr>)) 3 3 =
   Returned (3,
     \<lparr>datalen = 2, chunks = [\<lparr>memlen = 4096, chunk_datalen = 2, chunk_data = [4, 5]\<rparr>]\<rparr>,
     0,
     \<lparr>tls = quiet, io = [IoWrite 3 [1, 2, 3] (WrAccepted 3)], notices = [], clock = 1000\<rparr>)"
  by (simp add: flush_eval)

lemma five_bytes_inv: "buf_inv five_bytes"
  by (simp add: buf_inv_def chunk_inv_def buf_bytes_def five_bytes_def)

lemma empty_buf_inv: "buf_inv empty_buf"
  by (simp add: buf_inv_def buf_bytes_def empty_buf_def)

lemma flush_empty_forced:
  "buf_flush_to_tls (mock_env 8 (\<lambda>_. 4096) 0) empty_buf
     (fresh_world (quiet\<lparr>accepts := [WrAccepted 1], forced_write_size := 1\<rparr>)) 0 0 =
   Aborted Assert_sz_zero
     (fresh_world (quiet\<lparr>accepts := [WrAccepted 1], forced_write_size := 1\<rparr>))"
  by (simp add: flush_eval)

lemma flush_empty_unforced:
  "buf_flush_to_tls (mock_env 8 (\<lambda>_. 4096) 0) empty_buf (fresh_world quiet) 0 0 =
   Returned (0, empty_buf, 0,
     \<lparr>tls = quiet, io = [IoWrite 0 [] (WrAccepted 0)], notices = [], clock = 1000\<rparr>)"
  by (simp add: flush_eval)



lemma flush_chunk_forced_three:
  "flush_chunk_tls (mock_env 8 (\<lambda>_. 4096) 0) five_bytes
     (fresh_world (quiet\<lparr>accepts := [WrAccepted 3], forced_write_size := 3\<rparr>))
     (flushlen0 five_bytes 0) 5 =
   Returned (3,
     \<lparr>datalen = 2, chunks = [\<lparr>memlen = 4096, chunk_datalen = 2, chunk_data = [4, 5]\<rparr>]\<rparr>,
     2,
     \<lparr>tls = quiet\<lparr>forced_write_size := 3\<rparr>, io = [IoWrite 3 [1, 2, 3] (WrAccepted 3)],
      notices = [], clock = 1000\<rparr>)"
  by (simp add: flush_eval)

lemma flush_two_then_error:
  "buf_flush_to_tls (mock_env 8 (\<lambda>_. 4096) 0) five_bytes
     (fresh_world (quiet\<lparr>accepts := [WrAccepted 2, WrError some_error]\<rparr>)) 5 5 =
   Returned (- 3,
     \<lparr>datalen = 3, chunks = [\<lparr>memlen = 4096, chunk_datalen = 3, chunk_data = [3, 4, 5]\<rparr>]\<rparr>,
     3,
     \<lparr>tls = quiet,
      io = [IoWrite 5 [1, 2, 3, 4, 5] (WrAccepted 2), IoWrite 3 [3, 4, 5] (WrError some_error)],
      notices = [], clock = 1000\<rparr>)"
  by (simp add: flush_eval some_error_code)

lemma flush_error_first:
  "write_len (mock_env 8 (\<lambda>_. 4096) 0) (fresh_world (quiet\<lparr>accepts := [WrError some_error]\<rparr>))
     (flushlen0 five_bytes 5) = 5"
  "head_datalen five_bytes = 5"
  "write_data five_bytes 5 = [1, 2, 3, 4, 5]"
  "tls_write (mock_env 8 (\<lambda>_. 4096) 0) (tls (fresh_world (quiet\<lparr>accepts := [WrError some_error]\<rparr>)))
     [1, 2, 3, 4, 5] = (WrError some_error, quiet)"
  by (simp_all add: write_len_def write_data_def flushlen0_def head_datalen_def five_bytes_def
      tor_tls_get_forced_write_size_def mock_env_def mock_write_def quiet_def fresh_world_def
      word_sle_eq)

section \<open>Running a round trip on the pass-through transport\<close>




section \<open>A round trip that always completes\<close>
















section \<open>Inconsistent arguments of \<open>buf_flush_to_tls\<close>\<close>









section \<open>Claims\<close>

text \<open>
  C1, as the spec states it: a call of \<open>buf_read_from_tls\<close> only reads from the transport
  and appends to the buffer, and never records the peer's address, port or a time stamp.
  The code does record them when the option \<open>NodeType\<close> is set: with \<open>NodeType = 1\<close>,
  the call below appends the notice \<open>Logging IP:192.0.2.7:443\<close> with the time and the
  byte count to a log that was empty.
\<close>

theorem C1_peer_is_logged:
  "buf_read_from_tls (mock_env 8 (\<lambda>_. 4096) 1) empty_buf (fresh_world five_then_none) 10 =
   Some (Returned (5,
     \<lparr>datalen = 5,
      chunks = [\<lparr>memlen = 4096, chunk_datalen = 5, chunk_data = [1, 2, 3, 4, 5]\<rparr>]\<rparr>,
     \<lparr>tls = quiet\<lparr>yields := [RdBytes []]\<rparr>,
      io = [IoRead 10 (RdBytes [1, 2, 3, 4, 5])],
      notices = [Logging_IP ''192.0.2.7'' 443 1000 5], clock = 1000\<rparr>))"
  by (rule fill_five_logged)

text \<open>
  C1, amended: a call of \<open>buf_read_from_tls\<close> issues only reads to the transport and
  appends the bytes they stored to the buffer.  It records nothing when \<open>NodeType\<close> is
  zero, when it returns an error and when it aborts; when \<open>NodeType\<close> is set and the call
  returns a byte count, it appends exactly one notice, carrying the peer's address and
  port, the time and that count.
\<close>

theorem fill_records_peer_only_when_configured:
  assumes "buf_read_from_tls E buf w at_most = Some res"
  shows "notices (rd_world res) =
           (case res of
              Aborted a w' \<Rightarrow> notices w
            | Returned (r, buf', w') \<Rightarrow>
                if NodeType E \<noteq> 0 \<and> \<not> r <s 0
                then notices w @
                  [Logging_IP (fst (getpeername E (tls w'))) (snd (getpeername E (tls w')))
                     (clock w) (scast r)]
                else notices w)
         \<and> list_all is_read (new_io w (rd_world res))
         \<and> (case res of
              Aborted a w' \<Rightarrow> True
            | Returned (r, buf', w') \<Rightarrow> buf_bytes buf' = buf_bytes buf @ delivered (new_io w w'))"
  using assms
proof (cases rule: buf_read_from_tls_cases)
  case refused
  then show ?thesis
    by (simp add: rd_world_def new_io_def delivered_def)
next
  case (aborted w' evs)
  then show ?thesis
    by (simp add: rd_world_def read_post_def)
next
  case (failed r buf' w' evs)
  then obtain e where "r = Rep_tls_error e"
    by (auto simp: read_post_def)
  with failed error_neg [of e] show ?thesis
    by (simp add: rd_world_def read_post_def)
next
  case (counted t buf' w' evs)
  then have t: "t = word_of_nat (length (delivered evs))" and l: "length (delivered evs) < 2 ^ 31"
    by (simp_all add: read_post_def)
  from counted total_as_int [OF l] show ?thesis
    unfolding t
    by (simp add: rd_world_def read_post_def log_peer_def split: prod.splits)
qed

theorem fill_records_peer_only_when_configured_witness:
  "buf_read_from_tls (mock_env 8 (\<lambda>_. 4096) 1) empty_buf (fresh_world five_then_none) 10 =
     Some (Returned (5,
       \<lparr>datalen = 5,
        chunks = [\<lparr>memlen = 4096, chunk_datalen = 5, chunk_data = [1, 2, 3, 4, 5]\<rparr>]\<rparr>,
       \<lparr>tls = quiet\<lparr>yields := [RdBytes []]\<rparr>,
        io = [IoRead 10 (RdBytes [1, 2, 3, 4, 5])],
        notices = [Logging_IP ''192.0.2.7'' 443 1000 5], clock = 1000\<rparr>))
   \<and> [Logging_IP ''192.0.2.7'' 443 1000 5] =
       notices (fresh_world five_then_none) @ [Logging_IP ''192.0.2.7'' 443 1000 (scast (5 :: cint))]
   \<and> list_all is_read [IoRead 10 (RdBytes [1, 2, 3, 4, 5])]
   \<and> [1, 2, 3, 4, 5] = buf_bytes empty_buf @ delivered [IoRead 10 (RdBytes [1, 2, 3, 4, 5])]"
  using fill_records_peer_only_when_configured [OF fill_five_logged] fill_five_logged
  by (simp add: rd_world_def new_io_def fresh_world_def quiet_def mock_env_def
      buf_bytes_def empty_buf_def word_sless_alt)

text \<open>
  C2, as the spec states it: with a forced write size \<open>F > 0\<close>, \<open>flushlen = 0\<close> and an
  empty buffer, \<open>buf_flush_to_tls\<close> issues exactly one write of at least \<open>F\<close> bytes and
  returns.  The code issues none: with \<open>F = 1\<close> and a buffer without a chunk, the size is
  raised to 1 by line 148, the assertion \<open>sz == 0\<close> of line 154 fails and the call
  aborts with the transport untouched.
\<close>

theorem C2_forced_write_on_empty_buffer_aborts:
  "tor_tls_get_forced_write_size (mock_env 8 (\<lambda>_. 4096) 0)
     (fresh_world (quiet\<lparr>accepts := [WrAccepted 1], forced_write_size := 1\<rparr>)) = 1
   \<and> buf_bytes empty_buf = []
   \<and> buf_flush_to_tls (mock_env 8 (\<lambda>_. 4096) 0) empty_buf
        (fresh_world (quiet\<lparr>accepts := [WrAccepted 1], forced_write_size := 1\<rparr>)) 0 0 =
      Aborted Assert_sz_zero
        (fresh_world (quiet\<lparr>accepts := [WrAccepted 1], forced_write_size := 1\<rparr>))
   \<and> io (fresh_world (quiet\<lparr>accepts := [WrAccepted 1], forced_write_size := 1\<rparr>)) = []"
  using flush_empty_forced
  by (simp add: tor_tls_get_forced_write_size_def mock_env_def fresh_world_def quiet_def
      buf_bytes_def empty_buf_def)

text \<open>
  C2, amended: with \<open>flushlen = 0\<close> and an empty buffer, \<open>buf_flush_to_tls\<close> issues exactly
  one write, of length 0, and returns its result (0, or the transport's error code)
  with the buffer unchanged, when no forced write is pending; when the forced write size
  is \<open>F > 0\<close> it issues no write and aborts at the size assertion of \<open>flush_chunk_tls\<close>
  (line 154 when the buffer has no chunk, line 151 when its head chunk is empty).
\<close>

theorem C2_empty_buffer_zero_flushlen:
  assumes "buf_inv buf" and "datalen buf = 0"
  shows "(tor_tls_get_forced_write_size E w \<noteq> 0 \<longrightarrow>
            buf_flush_to_tls E buf w 0 bfl = Aborted Assert_sz_zero w \<or>
            buf_flush_to_tls E buf w 0 bfl = Aborted Assert_sz_le_datalen w)
       \<and> (tor_tls_get_forced_write_size E w = 0 \<longrightarrow>
            (\<exists>r out w'. buf_flush_to_tls E buf w 0 bfl = Returned (r, buf, 0, w') \<and>
               io w' = io w @ [IoWrite 0 [] out] \<and>
               (out = WrAccepted 0 \<and> r = 0 \<or> (\<exists>e. out = WrError e \<and> r = Rep_tls_error e))))"
proof -
  note hd = empty_head [OF assms]
  have f0: "flushlen0 buf 0 = 0"
    using hd by (simp add: flushlen0_def head_datalen_def split: list.splits)
  have unf: "buf_flush_to_tls E buf w 0 bfl =
      (case flush_loop E buf w 0 0 0 of
         Aborted a w' \<Rightarrow> Aborted a w'
       | Returned (Inl r, buf', buf_flushlen', w') \<Rightarrow> Returned (r, buf', buf_flushlen', w')
       | Returned (Inr flushed, buf', buf_flushlen', w') \<Rightarrow>
           if \<not> flushed < INT_MAX then Aborted Assert_flushed w'
           else Returned (ucast flushed, buf', buf_flushlen', w'))"
  proof -
    have "(if bfl > datalen buf then datalen buf else bfl) = 0"
      using assms(2) by (auto simp: word_gt_0)
    then show ?thesis
      by (simp add: buf_flush_to_tls_def Let_def)
  qed
  have n: "write_len E w 0 = tor_tls_get_forced_write_size E w"
    by (simp add: write_len_def max_def)
  have data: "write_data buf 0 = []"
    by (simp add: write_data_def split: list.splits)
  show ?thesis
  proof (cases rule: flush_chunk_tls_cases [where E = E and buf = buf and w = w
                       and ?sz0.0 = 0 and bfl = 0])
    case too_long
    then have "flush_loop E buf w 0 0 0 = Aborted Assert_sz_le_datalen w"
      by (subst flush_loop.simps) (simp add: f0)
    with too_long(2) hd n unf show ?thesis by simp
  next
    case not_zero
    then have "flush_loop E buf w 0 0 0 = Aborted Assert_sz_zero w"
      by (subst flush_loop.simps) (simp add: f0)
    with not_zero(2) n unf show ?thesis by simp
  next
    case (failed e w')
    then have "flush_loop E buf w 0 0 0 = Returned (Inl (Rep_tls_error e), buf, 0, w')"
      using error_neg [of e] by (subst flush_loop.simps) (simp add: f0)
    with failed(1,3) hd n unf data show ?thesis by simp
  next
    case (overdrawn k w')
    with hd n show ?thesis by simp
  next
    case (accepted k buf' w')
    with hd n have k: "k = 0" by simp
    with accepted(9) have b: "buf' = buf" by (simp add: drain_nothing)
    from accepted(2) have "flush_loop E buf w 0 0 0 = Returned (Inr 0, buf, 0, w')"
      unfolding k b by (subst flush_loop.simps) (simp add: f0)
    with accepted(1,3) hd n unf data k show ?thesis by (simp add: INT_MAX_def)
  qed
qed

theorem C2_empty_buffer_zero_flushlen_witness:
  "buf_inv empty_buf \<and> datalen empty_buf = 0
   \<and> tor_tls_get_forced_write_size (mock_env 8 (\<lambda>_. 4096) 0) (fresh_world quiet) = 0
   \<and> buf_flush_to_tls (mock_env 8 (\<lambda>_. 4096) 0) empty_buf (fresh_world quiet) 0 0 =
       Returned (0, empty_buf, 0,
         \<lparr>tls = quiet, io = [IoWrite 0 [] (WrAccepted 0)], notices = [], clock = 1000\<rparr>)
   \<and> io \<lparr>tls = quiet, io = [IoWrite 0 [] (WrAccepted 0)], notices = [], clock = 1000\<rparr> =
       io (fresh_world quiet) @ [IoWrite 0 [] (WrAccepted 0)]"
  using C2_empty_buffer_zero_flushlen [OF empty_buf_inv, of "mock_env 8 (\<lambda>_. 4096) 0"
          "fresh_world quiet" 0]
    flush_empty_unforced empty_buf_inv
  by (simp add: tor_tls_get_forced_write_size_def mock_env_def fresh_world_def quiet_def
      empty_buf_def)

text \<open>
  C3, at an input where the code misses it: the buffer is empty and \<open>at_most\<close> is
  \<open>INT_MAX + 1\<close>, so the request would push the total past \<open>INT_MAX\<close>.  The subtraction
  \<open>INT_MAX - at_most\<close> of line 85 wraps around, the guard lets the call through, and
  the call reads from the transport, adds a chunk and returns 0 instead of \<open>-1\<close>.
\<close>

theorem C3_guard_wraps_around:
  "buf_read_from_tls (mock_env 8 (\<lambda>_. 4096) 0) empty_buf (fresh_world quiet) 2147483648 =
   Some (Returned (0,
     \<lparr>datalen = 0, chunks = [\<lparr>memlen = 4096, chunk_datalen = 0, chunk_data = []\<rparr>]\<rparr>,
     \<lparr>tls = quiet, io = [IoRead 4096 (RdBytes [])], notices = [], clock = 1000\<rparr>))"
  by (simp add: read_eval)



text \<open>
  C5: when an iteration's write succeeds with \<open>r \<ge> 0\<close>, the transport reported \<open>r\<close> bytes
  written, the buffer's total drops by exactly \<open>r\<close> (which it can afford), the budget
  \<open>*buf_flushlen\<close> drops by \<open>r\<close> and stops at zero, and on a buffer that satisfies the data
  model's invariant the bytes removed are the first \<open>r\<close> bytes, those the transport
  accepted.
\<close>

theorem C5_drained_is_written:
  assumes "flush_chunk_tls E buf w sz0 buf_flushlen = Returned (r, buf', buf_flushlen', w')"
    and "\<not> r <s 0"
  shows "(\<exists>n data. io w' = io w @ [IoWrite n data (WrAccepted (unat r))])
       \<and> unat r \<le> unat (datalen buf)
       \<and> unat (datalen buf') = unat (datalen buf) - unat r
       \<and> unat buf_flushlen' = unat buf_flushlen - unat r
       \<and> (buf_inv buf \<longrightarrow>
            buf_inv buf' \<and> buf_bytes buf' = drop (unat r) (buf_bytes buf) \<and>
            accepted (new_io w w') = take (unat r) (buf_bytes buf))"
proof (cases rule: flush_chunk_tls_cases [where E = E and buf = buf and w = w
                     and ?sz0.0 = sz0 and bfl = buf_flushlen])
  case too_long
  with assms show ?thesis by simp
next
  case not_zero
  with assms show ?thesis by simp
next
  case (failed e w'')
  with assms error_neg [of e] show ?thesis by simp
next
  case (overdrawn k w'')
  with assms show ?thesis by simp
next
  case (accepted k buf'' w'')
  let ?n = "write_len E w sz0"
  from accepted(2) assms(1) have eq: "r = word_of_nat k" "buf'' = buf'" "w'' = w'"
    "buf_flushlen' = (if buf_flushlen > word_of_nat k then buf_flushlen - word_of_nat k else 0)"
    by simp_all
  have r: "unat r = k"
    unfolding eq using accepted(7) by (rule count_unat_int)
  have uk: "unat (word_of_nat k :: size_t) = k"
    using accepted(7) by (rule count_unat)
  have d: "unat (datalen buf') = unat (datalen buf) - k"
    using accepted(8,10) uk unfolding eq by (simp add: unat_minus_le word_le_nat_alt)
  have b: "unat buf_flushlen' = unat buf_flushlen - k"
    unfolding eq using budget_saturates [of k buf_flushlen] uk by simp
  have i: "buf_inv buf' \<and> buf_bytes buf' = drop k (buf_bytes buf) \<and>
           accepted (new_io w w') = take k (buf_bytes buf)" if "buf_inv buf"
  proof -
    note p = head_is_prefix [OF that accepted(1,6)]
    from buf_drain_inv [OF that accepted(8)] accepted(9) eq
    have "buf_inv buf'" "buf_bytes buf' = drop k (buf_bytes buf)"
      by simp_all
    with p accepted(3) eq show ?thesis
      by simp
  qed
  from accepted(3,8) eq r d b i show ?thesis
    by auto
qed

theorem C5_drained_is_written_witness:
  "flush_chunk_tls (mock_env 8 (\<lambda>_. 4096) 0) five_bytes
     (fresh_world (quiet\<lparr>accepts := [WrAccepted 3]\<rparr>)) 3 3 =
   Returned (3,
     \<lparr>datalen = 2, chunks = [\<lparr>memlen = 4096, chunk_datalen = 2, chunk_data = [4, 5]\<rparr>]\<rparr>,
     0,
     \<lparr>tls = quiet, io = [IoWrite 3 [1, 2, 3] (WrAccepted 3)], notices = [], clock = 1000\<rparr>)
   \<and> \<not> (3 :: cint) <s 0 \<and> buf_inv five_bytes
   \<and> unat (5 :: size_t) - unat (3 :: cint) = unat (2 :: size_t)
   \<and> unat (3 :: size_t) - unat (3 :: cint) = unat (0 :: size_t)
   \<and> drop (unat (3 :: cint)) (buf_bytes five_bytes) = [4, 5]
   \<and> take (unat (3 :: cint)) (buf_bytes five_bytes) = [1, 2, 3]"
  using C5_drained_is_written [OF flush_three_of_five] flush_three_of_five five_bytes_inv
  by (simp add: word_sless_alt buf_bytes_def five_bytes_def)

text \<open>
  C6: a negative code from the transport is returned at once.  In the read loop, the
  iteration whose read fails with \<open>e\<close> ends the loop with \<open>e\<close>, having changed no
  length counter (at most an empty chunk was added); in a call of \<open>buf_read_from_tls\<close>
  that has ended, a failed read is the last transport call, the call returned its code,
  and the buffer holds what the earlier reads stored.  In the flush loop, the iteration
  whose write fails with \<open>e\<close> ends the loop with \<open>e\<close> and leaves buffer and budget as
  they were; in a call of \<open>buf_flush_to_tls\<close>, a failed write is the last transport call,
  the call returned its code, and buffer and budget have lost exactly what the earlier
  writes reported.
\<close>

theorem C6_error_code_is_returned_at_once:
  "(total_read < at_most \<and> choose_chunk E buf at_most total_read = (buf1, readlen) \<and>
    tls_read E (tls w) readlen = (RdError e, t) \<longrightarrow>
      read_loop E buf w at_most total_read =
        Some (Returned (Inl (Rep_tls_error e), buf1,
                w\<lparr>tls := t, io := io w @ [IoRead readlen (RdError e)]\<rparr>))
      \<and> datalen buf1 = datalen buf \<and> buf_bytes buf1 = buf_bytes buf
      \<and> (chunks buf1 = chunks buf \<or> (\<exists>c. chunks buf1 = chunks buf @ [c] \<and> chunk_datalen c = 0)))
   \<and> (buf_read_from_tls E buf w at_most = Some res \<and>
      ev \<in> set (new_io w (rd_world res)) \<and> io_error ev = Some e \<longrightarrow>
      (\<exists>buf' w'. res = Returned (Rep_tls_error e, buf', w') \<and>
         new_io w w' = butlast (new_io w w') @ [ev] \<and>
         list_all full_read (butlast (new_io w w')) \<and>
         buf_bytes buf' = buf_bytes buf @ delivered (butlast (new_io w w')) \<and>
         datalen buf' = datalen buf + word_of_nat (length (delivered (butlast (new_io w w'))))))
   \<and> (write_len E w (flushlen0 buf sz) \<le> head_datalen buf \<and>
      tls_write E (tls w) (write_data buf (write_len E w (flushlen0 buf sz))) = (WrError e, t) \<longrightarrow>
      flush_loop E buf w sz bfl flushed =
        Returned (Inl (Rep_tls_error e), buf, bfl,
          w\<lparr>tls := t, io := io w @
            [IoWrite (write_len E w (flushlen0 buf sz))
               (write_data buf (write_len E w (flushlen0 buf sz))) (WrError e)]\<rparr>))
   \<and> (ev \<in> set (new_io w (fl_world (buf_flush_to_tls E buf w flushlen bfl))) \<and>
      io_error ev = Some e \<longrightarrow>
      (\<exists>buf' bfl' w'. buf_flush_to_tls E buf w flushlen bfl = Returned (Rep_tls_error e, buf', bfl', w') \<and>
         new_io w w' = butlast (new_io w w') @ [ev] \<and>
         list_all progress_write (butlast (new_io w w')) \<and>
         unat (datalen buf') + flushed_count (butlast (new_io w w')) = unat (datalen buf) \<and>
         unat bfl' = unat (min bfl (datalen buf)) - flushed_count (butlast (new_io w w')) \<and>
         (buf_inv buf \<longrightarrow> buf_bytes buf = accepted (butlast (new_io w w')) @ buf_bytes buf')))"
proof (intro conjI impI)
  assume "total_read < at_most \<and> choose_chunk E buf at_most total_read = (buf1, readlen) \<and>
    tls_read E (tls w) readlen = (RdError e, t)"
  then have h: "total_read < at_most" "choose_chunk E buf at_most total_read = (buf1, readlen)"
    "tls_read E (tls w) readlen = (RdError e, t)"
    by simp_all
  show "read_loop E buf w at_most total_read =
        Some (Returned (Inl (Rep_tls_error e), buf1,
                w\<lparr>tls := t, io := io w @ [IoRead readlen (RdError e)]\<rparr>))"
    by (rule read_loop_failed [OF h])
  show "datalen buf1 = datalen buf" "buf_bytes buf1 = buf_bytes buf"
    using choose_chunk_facts(4,5) [OF h(2)] by simp_all
  show "chunks buf1 = chunks buf \<or> (\<exists>c. chunks buf1 = chunks buf @ [c] \<and> chunk_datalen c = 0)"
    by (rule choose_chunk_chunks [OF h(2)])
next
  assume "buf_read_from_tls E buf w at_most = Some res \<and>
      ev \<in> set (new_io w (rd_world res)) \<and> io_error ev = Some e"
  then have h: "buf_read_from_tls E buf w at_most = Some res"
    "ev \<in> set (new_io w (rd_world res))" "io_error ev = Some e"
    by simp_all
  show "\<exists>buf' w'. res = Returned (Rep_tls_error e, buf', w') \<and>
         new_io w w' = butlast (new_io w w') @ [ev] \<and>
         list_all full_read (butlast (new_io w w')) \<and>
         buf_bytes buf' = buf_bytes buf @ delivered (butlast (new_io w w')) \<and>
         datalen buf' = datalen buf + word_of_nat (length (delivered (butlast (new_io w w'))))"
    by (rule fill_error_call [OF h])
next
  assume "write_len E w (flushlen0 buf sz) \<le> head_datalen buf \<and>
      tls_write E (tls w) (write_data buf (write_len E w (flushlen0 buf sz))) = (WrError e, t)"
  then have h: "write_len E w (flushlen0 buf sz) \<le> head_datalen buf"
    "tls_write E (tls w) (write_data buf (write_len E w (flushlen0 buf sz))) = (WrError e, t)"
    by simp_all
  show "flush_loop E buf w sz bfl flushed =
        Returned (Inl (Rep_tls_error e), buf, bfl,
          w\<lparr>tls := t, io := io w @
            [IoWrite (write_len E w (flushlen0 buf sz))
               (write_data buf (write_len E w (flushlen0 buf sz))) (WrError e)]\<rparr>)"
    by (rule flush_loop_failed [OF h])
next
  assume "ev \<in> set (new_io w (fl_world (buf_flush_to_tls E buf w flushlen bfl))) \<and>
      io_error ev = Some e"
  then have h: "ev \<in> set (new_io w (fl_world (buf_flush_to_tls E buf w flushlen bfl)))"
    "io_error ev = Some e"
    by simp_all
  show "\<exists>buf' bfl' w'. buf_flush_to_tls E buf w flushlen bfl = Returned (Rep_tls_error e, buf', bfl', w') \<and>
         new_io w w' = butlast (new_io w w') @ [ev] \<and>
         list_all progress_write (butlast (new_io w w')) \<and>
         unat (datalen buf') + flushed_count (butlast (new_io w w')) = unat (datalen buf) \<and>
         unat bfl' = unat (min bfl (datalen buf)) - flushed_count (butlast (new_io w w')) \<and>
         (buf_inv buf \<longrightarrow> buf_bytes buf = accepted (butlast (new_io w w')) @ buf_bytes buf')"
    by (rule flush_error_call [OF h])
qed

theorem C6_error_code_is_returned_at_once_witness:
  "((0 :: size_t) < 4
    \<and> choose_chunk (mock_env 8 (\<lambda>_. 2) 0) empty_buf 4 0 =
        (\<lparr>datalen = 0, chunks = [\<lparr>memlen = 2, chunk_datalen = 0, chunk_data = []\<rparr>]\<rparr>, 2)
    \<and> tls_read (mock_env 8 (\<lambda>_. 2) 0) (tls (fresh_world (quiet\<lparr>yields := [RdError some_error]\<rparr>))) 2 =
        (RdError some_error, quiet)
    \<and> read_loop (mock_env 8 (\<lambda>_. 2) 0) empty_buf
          (fresh_world (quiet\<lparr>yields := [RdError some_error]\<rparr>)) 4 0 =
        Some (Returned (Inl (Rep_tls_error some_error),
          \<lparr>datalen = 0, chunks = [\<lparr>memlen = 2, chunk_datalen = 0, chunk_data = []\<rparr>]\<rparr>,
          (fresh_world (quiet\<lparr>yields := [RdError some_error]\<rparr>))
            \<lparr>tls := quiet, io := io (fresh_world (quiet\<lparr>yields := [RdError some_error]\<rparr>))
                 @ [IoRead 2 (RdError some_error)]\<rparr>)))
   \<and> (buf_read_from_tls (mock_env 8 (\<lambda>_. 2) 0) empty_buf
         (fresh_world (quiet\<lparr>yields := [RdBytes [1, 2], RdError some_error]\<rparr>)) 4 =
       Some (Returned (- 3,
         \<lparr>datalen = 2,
          chunks = [\<lparr>memlen = 2, chunk_datalen = 2, chunk_data = [1, 2]\<rparr>,
                    \<lparr>memlen = 2, chunk_datalen = 0, chunk_data = []\<rparr>]\<rparr>,
         \<lparr>tls = quiet, io = [IoRead 2 (RdBytes [1, 2]), IoRead 2 (RdError some_error)],
          notices = [], clock = 1000\<rparr>))
    \<and> IoRead 2 (RdError some_error) \<in> set [IoRead 2 (RdBytes [1, 2]), IoRead 2 (RdError some_error)]
    \<and> io_error (IoRead 2 (RdError some_error)) = Some some_error
    \<and> Rep_tls_error some_error = - 3)
   \<and> (write_len (mock_env 8 (\<lambda>_. 4096) 0) (fresh_world (quiet\<lparr>accepts := [WrError some_error]\<rparr>))
         (flushlen0 five_bytes 5) \<le> head_datalen five_bytes
    \<and> tls_write (mock_env 8 (\<lambda>_. 4096) 0) (tls (fresh_world (quiet\<lparr>accepts := [WrError some_error]\<rparr>)))
         [1, 2, 3, 4, 5] = (WrError some_error, quiet)
    \<and> flush_loop (mock_env 8 (\<lambda>_. 4096) 0) five_bytes
         (fresh_world (quiet\<lparr>accepts := [WrError some_error]\<rparr>)) 5 5 0 =
        Returned (Inl (Rep_tls_error some_error), five_bytes, 5,
          (fresh_world (quiet\<lparr>accepts := [WrError some_error]\<rparr>))
            \<lparr>tls := quiet, io := io (fresh_world (quiet\<lparr>accepts := [WrError some_error]\<rparr>))
                 @ [IoWrite 5 [1, 2, 3, 4, 5] (WrError some_error)]\<rparr>))
   \<and> (buf_flush_to_tls (mock_env 8 (\<lambda>_. 4096) 0) five_bytes
         (fresh_world (quiet\<lparr>accepts := [WrAccepted 2, WrError some_error]\<rparr>)) 5 5 =
       Returned (- 3,
         \<lparr>datalen = 3, chunks = [\<lparr>memlen = 4096, chunk_datalen = 3, chunk_data = [3, 4, 5]\<rparr>]\<rparr>,
         3,
         \<lparr>tls = quiet,
          io = [IoWrite 5 [1, 2, 3, 4, 5] (WrAccepted 2), IoWrite 3 [3, 4, 5] (WrError some_error)],
          notices = [], clock = 1000\<rparr>)
    \<and> IoWrite 3 [3, 4, 5] (WrError some_error) \<in>
         set [IoWrite 5 [1, 2, 3, 4, 5] (WrAccepted 2), IoWrite 3 [3, 4, 5] (WrError some_error)]
    \<and> io_error (IoWrite 3 [3, 4, 5] (WrError some_error)) = Some some_error
    \<and> buf_inv five_bytes)"
proof -
  note T = C6_error_code_is_returned_at_once
  let ?Er = "mock_env 8 (\<lambda>_. 2) 0" and ?Ew = "mock_env 8 (\<lambda>_. 4096) 0"
  let ?w1 = "fresh_world (quiet\<lparr>yields := [RdError some_error]\<rparr>)"
  let ?w3 = "fresh_world (quiet\<lparr>accepts := [WrError some_error]\<rparr>)"
  have h1: "(0 :: size_t) < 4 \<and>
      choose_chunk ?Er empty_buf 4 0 =
        (\<lparr>datalen = 0, chunks = [\<lparr>memlen = 2, chunk_datalen = 0, chunk_data = []\<rparr>]\<rparr>, 2) \<and>
      tls_read ?Er (tls ?w1) 2 = (RdError some_error, quiet)"
    using fill_error_first by simp
  note c1 = T [where total_read = 0 and at_most = 4 and E = ?Er and buf = empty_buf and w = ?w1
      and readlen = 2 and e = some_error and t = quiet, THEN conjunct1, rule_format, OF h1,
      THEN conjunct1]
  have h3: "write_len ?Ew ?w3 (flushlen0 five_bytes 5) \<le> head_datalen five_bytes \<and>
      tls_write ?Ew (tls ?w3) (write_data five_bytes (write_len ?Ew ?w3 (flushlen0 five_bytes 5))) =
        (WrError some_error, quiet)"
    using flush_error_first by simp
  note c3 = T [where E = ?Ew and buf = five_bytes and w = ?w3 and sz = 5 and e = some_error
      and t = quiet and bfl = 5 and flushed = 0,
      THEN conjunct2, THEN conjunct2, THEN conjunct1, rule_format, OF h3]
  let ?w2 = "fresh_world (quiet\<lparr>yields := [RdBytes [1, 2], RdError some_error]\<rparr>)"
  let ?w4 = "fresh_world (quiet\<lparr>accepts := [WrAccepted 2, WrError some_error]\<rparr>)"
  let ?res = "Returned (- 3 :: cint,
         \<lparr>datalen = 2,
          chunks = [\<lparr>memlen = 2, chunk_datalen = 2, chunk_data = [1, 2]\<rparr>,
                    \<lparr>memlen = 2, chunk_datalen = 0, chunk_data = []\<rparr>]\<rparr>,
         \<lparr>tls = quiet, io = [IoRead 2 (RdBytes [1, 2]), IoRead 2 (RdError some_error)],
          notices = [], clock = 1000\<rparr>)"
  have h2: "buf_read_from_tls ?Er empty_buf ?w2 4 = Some ?res \<and>
      IoRead 2 (RdError some_error) \<in> set (new_io ?w2 (rd_world ?res)) \<and>
      io_error (IoRead 2 (RdError some_error)) = Some some_error"
    using fill_two_then_error by (simp add: rd_world_def new_io_def fresh_world_def)
  note c2 = T [where E = ?Er and buf = empty_buf and w = ?w2 and at_most = 4 and res = ?res
      and ev = "IoRead 2 (RdError some_error)" and e = some_error,
      THEN conjunct2, THEN conjunct1, rule_format, OF h2]
  have h4: "IoWrite 3 [3, 4, 5] (WrError some_error) \<in>
        set (new_io ?w4 (fl_world (buf_flush_to_tls ?Ew five_bytes ?w4 5 5))) \<and>
      io_error (IoWrite 3 [3, 4, 5] (WrError some_error)) = Some some_error"
    using flush_two_then_error by (simp add: fl_world_def new_io_def fresh_world_def)
  note c4 = T [where E = ?Ew and buf = five_bytes and w = ?w4 and flushlen = 5 and bfl = 5
      and ev = "IoWrite 3 [3, 4, 5] (WrError some_error)" and e = some_error,
      THEN conjunct2, THEN conjunct2, THEN conjunct2, rule_format, OF h4]
  from c2 c4 have "Rep_tls_error some_error = - 3"
    using fill_two_then_error by auto
  then show ?thesis
    using h1 c1 h3 c3 fill_two_then_error flush_two_then_error five_bytes_inv flush_error_first
    by simp
qed

text \<open>
  C7, as the spec states it: in every call of \<open>buf_read_from_tls\<close>, after a read that
  returns fewer bytes than asked for the call returns the total appended so far.  Not in
  this one: on an empty buffer with \<open>at_most = INT_MAX + 1\<close> the guard of line 85 wraps
  around and lets the request through, the new chunk has room for all of it, and the
  read returns \<open>INT_MAX\<close> bytes, one fewer than asked for.  The total is then \<open>INT_MAX\<close>,
  the assertion \<open>total_read + r < INT_MAX\<close> of line 105 fails, and the call aborts
  instead of returning.
\<close>

theorem C7_short_read_of_INT_MAX_bytes_aborts:
  "buf_read_from_tls (mock_env 8 (\<lambda>n. n) 0) empty_buf
     (fresh_world (quiet\<lparr>yields := [RdBytes (replicate 2147483647 0)]\<rparr>)) 2147483648 =
   Some (Aborted Assert_total_read
     \<lparr>tls = quiet,
      io = [IoRead 2147483648 (RdBytes (replicate 2147483647 0))],
      notices = [], clock = 1000\<rparr>)
   \<and> short_read (IoRead 2147483648 (RdBytes (replicate 2147483647 0)))"
  by (simp add: read_eval)

text \<open>
  C7, amended: a read that returns fewer bytes than asked for ends the loop, in every
  call.  The iteration whose read is short issues no other transport call; it ends the
  loop with the total read so far when that total is below \<open>INT_MAX\<close>, and aborts at
  the assertion of line 105 otherwise (the read's count is an \<open>int\<close>, so of the bytes
  \<open>bs\<close> the session hands over at most \<open>INT_MAX\<close> are stored).  In a call of \<open>buf_read_from_tls\<close> that has
  ended, a short read is the last transport call and every read before it was a full
  one; the call returned the number of bytes appended, which is not negative, or, only
  when \<open>at_most\<close> exceeds \<open>INT_MAX\<close>, aborted at that assertion.  In the spec's scenario
  the transport yields 5 bytes then none and \<open>at_most\<close> is 10: the call returns 5, the
  buffer holds those 5 bytes, and the second yield is never asked for.
\<close>

theorem C7_short_read_stops_the_loop:
  "(total_read < at_most \<and>
    choose_chunk E buf at_most total_read = (buf1, readlen) \<and>
    tls_read E (tls w) readlen = (RdBytes bs, t) \<and> length bs < unat readlen \<longrightarrow>
      (if total_read + word_of_nat (length (take 2147483647 bs)) < INT_MAX
       then \<exists>buf2. read_loop E buf w at_most total_read =
              Some (Returned (Inr (total_read + word_of_nat (length (take 2147483647 bs))), buf2,
                      w\<lparr>tls := t,
                        io := io w @ [IoRead readlen (RdBytes (take 2147483647 bs))]\<rparr>))
            \<and> buf_bytes buf2 = buf_bytes buf @ take 2147483647 bs
       else read_loop E buf w at_most total_read =
              Some (Aborted Assert_total_read
                      (w\<lparr>tls := t,
                         io := io w @ [IoRead readlen (RdBytes (take 2147483647 bs))]\<rparr>))))
   \<and> (buf_read_from_tls E buf w at_most = Some res \<and>
      ev \<in> set (new_io w (rd_world res)) \<and> short_read ev \<longrightarrow>
      new_io w (rd_world res) = butlast (new_io w (rd_world res)) @ [ev] \<and>
      list_all full_read (butlast (new_io w (rd_world res))) \<and>
      ((\<exists>r buf' w'. res = Returned (r, buf', w') \<and> \<not> r <s 0 \<and>
          unat r = length (delivered (new_io w w')) \<and>
          buf_bytes buf' = buf_bytes buf @ delivered (new_io w w'))
       \<or> (\<exists>w'. res = Aborted Assert_total_read w' \<and> INT_MAX < at_most)))
   \<and> buf_read_from_tls (mock_env 8 (\<lambda>_. 4096) 0) empty_buf (fresh_world five_then_none) 10 =
       Some (Returned (5, five_bytes,
         \<lparr>tls = quiet\<lparr>yields := [RdBytes []]\<rparr>,
          io = [IoRead 10 (RdBytes [1, 2, 3, 4, 5])], notices = [], clock = 1000\<rparr>))"
proof -
  have 1: "total_read < at_most \<and>
    choose_chunk E buf at_most total_read = (buf1, readlen) \<and>
    tls_read E (tls w) readlen = (RdBytes bs, t) \<and> length bs < unat readlen \<longrightarrow>
      (if total_read + word_of_nat (length (take 2147483647 bs)) < INT_MAX
       then \<exists>buf2. read_loop E buf w at_most total_read =
              Some (Returned (Inr (total_read + word_of_nat (length (take 2147483647 bs))), buf2,
                      w\<lparr>tls := t,
                        io := io w @ [IoRead readlen (RdBytes (take 2147483647 bs))]\<rparr>))
            \<and> buf_bytes buf2 = buf_bytes buf @ take 2147483647 bs
       else read_loop E buf w at_most total_read =
              Some (Aborted Assert_total_read
                      (w\<lparr>tls := t,
                         io := io w @ [IoRead readlen (RdBytes (take 2147483647 bs))]\<rparr>)))"
  proof (rule impI)
    assume "total_read < at_most \<and>
      choose_chunk E buf at_most total_read = (buf1, readlen) \<and>
      tls_read E (tls w) readlen = (RdBytes bs, t) \<and> length bs < unat readlen"
    then have h: "total_read < at_most"
      "choose_chunk E buf at_most total_read = (buf1, readlen)"
      "tls_read E (tls w) readlen = (RdBytes bs, t)" "length bs < unat readlen"
      by simp_all
    show "if total_read + word_of_nat (length (take 2147483647 bs)) < INT_MAX
       then \<exists>buf2. read_loop E buf w at_most total_read =
              Some (Returned (Inr (total_read + word_of_nat (length (take 2147483647 bs))), buf2,
                      w\<lparr>tls := t,
                        io := io w @ [IoRead readlen (RdBytes (take 2147483647 bs))]\<rparr>))
            \<and> buf_bytes buf2 = buf_bytes buf @ take 2147483647 bs
       else read_loop E buf w at_most total_read =
              Some (Aborted Assert_total_read
                      (w\<lparr>tls := t,
                         io := io w @ [IoRead readlen (RdBytes (take 2147483647 bs))]\<rparr>))"
      by (rule read_loop_short_any [OF h])
  qed
  have 2: "buf_read_from_tls E buf w at_most = Some res \<and>
      ev \<in> set (new_io w (rd_world res)) \<and> short_read ev \<longrightarrow>
      new_io w (rd_world res) = butlast (new_io w (rd_world res)) @ [ev] \<and>
      list_all full_read (butlast (new_io w (rd_world res))) \<and>
      ((\<exists>r buf' w'. res = Returned (r, buf', w') \<and> \<not> r <s 0 \<and>
          unat r = length (delivered (new_io w w')) \<and>
          buf_bytes buf' = buf_bytes buf @ delivered (new_io w w'))
       \<or> (\<exists>w'. res = Aborted Assert_total_read w' \<and> INT_MAX < at_most))"
  proof (rule impI)
    assume a: "buf_read_from_tls E buf w at_most = Some res \<and>
        ev \<in> set (new_io w (rd_world res)) \<and> short_read ev"
    then have run: "buf_read_from_tls E buf w at_most = Some res"
      and ev: "ev \<in> set (new_io w (rd_world res))" and sh: "short_read ev"
      by simp_all
    let ?evs = "new_io w (rd_world res)"
    from run show "?evs = butlast ?evs @ [ev] \<and> list_all full_read (butlast ?evs) \<and>
        ((\<exists>r buf' w'. res = Returned (r, buf', w') \<and> \<not> r <s 0 \<and>
            unat r = length (delivered (new_io w w')) \<and>
            buf_bytes buf' = buf_bytes buf @ delivered (new_io w w'))
         \<or> (\<exists>w'. res = Aborted Assert_total_read w' \<and> INT_MAX < at_most))"
    proof (cases rule: buf_read_from_tls_cases)
      case refused
      with ev show ?thesis by (simp add: rd_world_def new_io_def)
    next
      case (aborted w' evs)
      then have io: "?evs = evs" and full: "list_all full_read (butlast evs)"
        by (simp_all add: read_post_def rd_world_def new_io_def)
      from ev io have "ev \<in> set evs" by simp
      from only_last_can_differ [OF full this short_not_full [OF sh]]
      have last: "evs = butlast evs @ [ev]" .
      have "INT_MAX < at_most"
      proof (rule ccontr)
        assume "\<not> INT_MAX < at_most"
        then have "at_most \<le> INT_MAX" by simp
        from fill_in_range_returns [OF run this] aborted(1) show False by simp
      qed
      with aborted(1) io full last show ?thesis by simp
    next
      case (failed r buf' w' evs)
      then have io: "new_io w w' = evs" and full: "list_all full_read (butlast evs)"
        and err: "evs \<noteq> []" "\<exists>e. io_error (last evs) = Some e"
        by (auto simp: read_post_def rd_world_def)
      from ev failed(1) io have "ev \<in> set evs" by (simp add: rd_world_def)
      from only_last_can_differ [OF full this short_not_full [OF sh]]
      have "last evs = ev" by (metis last_snoc)
      with err short_no_error [OF sh] show ?thesis by simp
    next
      case (counted t buf' w' evs)
      then have io: "new_io w (log_peer E t w') = evs" and full: "list_all full_read (butlast evs)"
        and t: "t = word_of_nat (length (delivered evs))" and l: "length (delivered evs) < 2 ^ 31"
        and b: "buf_bytes buf' = buf_bytes buf @ delivered evs"
        by (simp_all add: read_post_def rd_world_def new_io_def)
      from ev counted(1) io have "ev \<in> set evs" by (simp add: rd_world_def)
      from only_last_can_differ [OF full this short_not_full [OF sh]]
      have "evs = butlast evs @ [ev]" .
      with counted(1) io full b total_as_int [OF l] show ?thesis
        unfolding t by (simp add: rd_world_def)
    qed
  qed
  from 1 2 fill_five show ?thesis
    by (intro conjI)
qed

theorem C7_short_read_stops_the_loop_witness:
  "(0 :: size_t) < 10
   \<and> choose_chunk (mock_env 8 (\<lambda>_. 4096) 0) empty_buf 10 0 =
       (\<lparr>datalen = 0, chunks = [\<lparr>memlen = 4096, chunk_datalen = 0, chunk_data = []\<rparr>]\<rparr>, 10)
   \<and> tls_read (mock_env 8 (\<lambda>_. 4096) 0) (tls (fresh_world five_then_none)) 10 =
       (RdBytes [1, 2, 3, 4, 5], quiet\<lparr>yields := [RdBytes []]\<rparr>)
   \<and> length [1, 2, 3, 4, 5 :: byte] < unat (10 :: size_t)
   \<and> read_loop (mock_env 8 (\<lambda>_. 4096) 0) empty_buf (fresh_world five_then_none) 10 0 =
       Some (Returned (Inr (0 + word_of_nat (length [1, 2, 3, 4, 5 :: byte])), five_bytes,
         \<lparr>tls = quiet\<lparr>yields := [RdBytes []]\<rparr>,
          io = [IoRead 10 (RdBytes [1, 2, 3, 4, 5])], notices = [], clock = 1000\<rparr>))
   \<and> buf_read_from_tls (mock_env 8 (\<lambda>_. 4096) 0) empty_buf (fresh_world five_then_none) 10 =
       Some (Returned (5, five_bytes,
         \<lparr>tls = quiet\<lparr>yields := [RdBytes []]\<rparr>,
          io = [IoRead 10 (RdBytes [1, 2, 3, 4, 5])], notices = [], clock = 1000\<rparr>))
   \<and> IoRead 10 (RdBytes [1, 2, 3, 4, 5]) \<in> set (new_io (fresh_world five_then_none)
         (rd_world (Returned ((5 :: cint), five_bytes,
           \<lparr>tls = quiet\<lparr>yields := [RdBytes []]\<rparr>,
            io = [IoRead 10 (RdBytes [1, 2, 3, 4, 5])], notices = [], clock = 1000\<rparr>))))
   \<and> short_read (IoRead 10 (RdBytes [1, 2, 3, 4, 5]))
   \<and> \<not> (5 :: cint) <s 0
   \<and> unat (5 :: cint) = length (delivered [IoRead 10 (RdBytes [1, 2, 3, 4, 5])])
   \<and> buf_bytes five_bytes = buf_bytes empty_buf @ delivered [IoRead 10 (RdBytes [1, 2, 3, 4, 5])]"
  using C7_short_read_stops_the_loop [where total_read = 0 and at_most = 10
          and E = "mock_env 8 (\<lambda>_. 4096) 0" and buf = empty_buf and w = "fresh_world five_then_none"
          and ?buf1.0 = "\<lparr>datalen = 0, chunks = [\<lparr>memlen = 4096, chunk_datalen = 0, chunk_data = []\<rparr>]\<rparr>"
          and readlen = 10 and bs = "[1, 2, 3, 4, 5]" and t = "quiet\<lparr>yields := [RdBytes []]\<rparr>"
          and ev = "IoRead 10 (RdBytes [1, 2, 3, 4, 5])"
          and res = "Returned (5, five_bytes,
            \<lparr>tls = quiet\<lparr>yields := [RdBytes []]\<rparr>,
             io = [IoRead 10 (RdBytes [1, 2, 3, 4, 5])], notices = [], clock = 1000\<rparr>)"]
    fill_five read_loop_five
  by (simp add: choose_chunk_def buf_add_chunk_with_capacity_def CHUNK_REMAINING_CAPACITY_def
      mock_env_def mock_read_def five_then_none_def quiet_def fresh_world_def empty_buf_def
      five_bytes_def INT_MAX_def Let_def rd_world_def new_io_def buf_bytes_def word_sless_alt)






text \<open>
  C10: \<open>flush_chunk_tls\<close> aborts at line 151 exactly when there is a head chunk and the
  size, raised to the forced write size, exceeds its length, and at line 154 exactly
  when there is no chunk and that size is not 0.  So in an iteration of the loop where
  the forced write size is at most the head chunk's length (0 without a chunk), neither
  assertion fails: exactly one write is issued, of at most the head chunk's length and
  taken from its valid data, and nothing aborts unless the buffer's counters are
  inconsistent.
\<close>

theorem C10_size_assertions:
  "(flush_chunk_tls E buf w sz0 bfl = Aborted Assert_sz_le_datalen w \<longleftrightarrow>
      chunks buf \<noteq> [] \<and> head_datalen buf < max sz0 (tor_tls_get_forced_write_size E w))
   \<and> (flush_chunk_tls E buf w sz0 bfl = Aborted Assert_sz_zero w \<longleftrightarrow>
      chunks buf = [] \<and> max sz0 (tor_tls_get_forced_write_size E w) \<noteq> 0)
   \<and> (0 \<le>s sz \<and> 0 \<le>s head_datalen buf \<and>
       tor_tls_get_forced_write_size E w \<le> head_datalen buf \<longrightarrow>
        max (min sz (head_datalen buf)) (tor_tls_get_forced_write_size E w) \<le> head_datalen buf
      \<and> (\<exists>out. new_io w (fl_world (flush_chunk_tls E buf w (flushlen0 buf sz) bfl)) =
            [IoWrite (max (min sz (head_datalen buf)) (tor_tls_get_forced_write_size E w))
               (write_data buf (max (min sz (head_datalen buf)) (tor_tls_get_forced_write_size E w)))
               out])
      \<and> (\<forall>a w'. flush_chunk_tls E buf w (flushlen0 buf sz) bfl = Aborted a w' \<longrightarrow>
            a = Assert_drain \<and> \<not> buf_inv buf))"
proof (intro conjI impI)
  show "flush_chunk_tls E buf w sz0 bfl = Aborted Assert_sz_le_datalen w \<longleftrightarrow>
      chunks buf \<noteq> [] \<and> head_datalen buf < max sz0 (tor_tls_get_forced_write_size E w)"
    by (cases rule: flush_chunk_tls_cases [where E = E and buf = buf and w = w
          and ?sz0.0 = sz0 and bfl = bfl])
       (auto simp: write_len_def less_max_iff_disj dest: leD)
  show "flush_chunk_tls E buf w sz0 bfl = Aborted Assert_sz_zero w \<longleftrightarrow>
      chunks buf = [] \<and> max sz0 (tor_tls_get_forced_write_size E w) \<noteq> 0"
    by (cases rule: flush_chunk_tls_cases [where E = E and buf = buf and w = w
          and ?sz0.0 = sz0 and bfl = bfl])
       (auto simp: write_len_def head_datalen_def less_max_iff_disj dest: leD)
next
  let ?n = "max (min sz (head_datalen buf)) (tor_tls_get_forced_write_size E w)"
  assume a: "0 \<le>s sz \<and> 0 \<le>s head_datalen buf \<and>
       tor_tls_get_forced_write_size E w \<le> head_datalen buf"
  then have n: "write_len E w (flushlen0 buf sz) = ?n"
    by (simp add: write_len_def flushlen0_min)
  from a show le: "?n \<le> head_datalen buf"
    by simp
  have "(\<exists>out. new_io w (fl_world (flush_chunk_tls E buf w (flushlen0 buf sz) bfl)) =
            [IoWrite ?n (write_data buf ?n) out])
      \<and> (\<forall>a w'. flush_chunk_tls E buf w (flushlen0 buf sz) bfl = Aborted a w' \<longrightarrow>
            a = Assert_drain \<and> \<not> buf_inv buf)"
  proof (cases rule: flush_chunk_tls_cases [where E = E and buf = buf and w = w
          and ?sz0.0 = "flushlen0 buf sz" and bfl = bfl])
    case too_long
    from too_long(2) [unfolded n] le have False by (meson leD)
    then show ?thesis ..
  next
    case not_zero
    then have "head_datalen buf = 0" by (simp add: head_datalen_def)
    with le not_zero(2) show ?thesis unfolding n by simp
  next
    case (failed e w')
    then show ?thesis by (simp add: n fl_world_def)
  next
    case (overdrawn k w')
    have "\<not> buf_inv buf"
    proof
      assume "buf_inv buf"
      from head_is_prefix(2) [OF this overdrawn(1,4)] \<open>buf_inv buf\<close> overdrawn(5)
      show False by (simp add: buf_inv_def)
    qed
    with overdrawn show ?thesis by (simp add: n fl_world_def)
  next
    case (accepted k buf' w')
    then show ?thesis by (simp add: n fl_world_def)
  qed
  then show "\<exists>out. new_io w (fl_world (flush_chunk_tls E buf w (flushlen0 buf sz) bfl)) =
            [IoWrite ?n (write_data buf ?n) out]"
    and "\<forall>a w'. flush_chunk_tls E buf w (flushlen0 buf sz) bfl = Aborted a w' \<longrightarrow>
            a = Assert_drain \<and> \<not> buf_inv buf"
    by simp_all
qed

theorem C10_size_assertions_witness:
  "(0 :: ssize_t) \<le>s 0 \<and> 0 \<le>s head_datalen five_bytes
   \<and> tor_tls_get_forced_write_size (mock_env 8 (\<lambda>_. 4096) 0)
        (fresh_world (quiet\<lparr>accepts := [WrAccepted 3], forced_write_size := 3\<rparr>))
      \<le> head_datalen five_bytes
   \<and> flush_chunk_tls (mock_env 8 (\<lambda>_. 4096) 0) five_bytes
        (fresh_world (quiet\<lparr>accepts := [WrAccepted 3], forced_write_size := 3\<rparr>))
        (flushlen0 five_bytes 0) 5 \<noteq>
      Aborted Assert_sz_le_datalen
        (fresh_world (quiet\<lparr>accepts := [WrAccepted 3], forced_write_size := 3\<rparr>))
   \<and> new_io (fresh_world (quiet\<lparr>accepts := [WrAccepted 3], forced_write_size := 3\<rparr>))
        (fl_world (flush_chunk_tls (mock_env 8 (\<lambda>_. 4096) 0) five_bytes
           (fresh_world (quiet\<lparr>accepts := [WrAccepted 3], forced_write_size := 3\<rparr>))
           (flushlen0 five_bytes 0) 5)) =
      [IoWrite 3 [1, 2, 3] (WrAccepted 3)]"
  using C10_size_assertions [of "mock_env 8 (\<lambda>_. 4096) 0" five_bytes
          "fresh_world (quiet\<lparr>accepts := [WrAccepted 3], forced_write_size := 3\<rparr>)"
          "flushlen0 five_bytes 0" 5 0]
    flush_chunk_forced_three
  by (simp add: head_datalen_def five_bytes_def word_sle_eq new_io_def fl_world_def
      fresh_world_def tor_tls_get_forced_write_size_def mock_env_def quiet_def)

end
